theory Spec2Isabelle
  imports Main "HOL-Library.AList"
begin

section \<open>Values shared by the components\<close>

text \<open>
  Timestamps (\<open>Date.now()\<close>) and all other JavaScript numbers of the program are integer
  milliseconds or counters far below \<open>2^53\<close>, where JavaScript numbers are exact; they
  are modelled as \<open>int\<close>. Every read of the clock is an explicit argument.

  Values of TypeScript type \<open>unknown\<close> (payloads, results, parameters) are JSON values.
\<close>

datatype json =
    JUndefined
  | JNull
  | JBool bool
  | JNum int
  | JStr string
  | JArr "json list"
  | JObj "(string \<times> json) list"

text \<open>JavaScript truthiness of a JSON value.\<close>

fun truthy :: "json \<Rightarrow> bool" where
  "truthy JUndefined = False"
| "truthy JNull = False"
| "truthy (JBool b) = b"
| "truthy (JNum n) = (n \<noteq> 0)"
| "truthy (JStr s) = (s \<noteq> [])"
| "truthy (JArr _) = True"
| "truthy (JObj _) = True"

text \<open>
  Property access \<open>v.k\<close>, for the keys the program reads (\<open>policy\<close>,
  \<open>tickIntervalMs\<close>, \<open>nonce\<close>; none is a built-in property of a string or an
  array): \<open>None\<close> is the \<open>TypeError\<close> raised on \<open>undefined\<close> and \<open>null\<close>.
  \<open>JSON.parse\<close> keeps the last of several equal keys.
\<close>

fun js_prop :: "json \<Rightarrow> string \<Rightarrow> json option" where
  "js_prop JUndefined k = None"
| "js_prop JNull k = None"
| "js_prop (JObj kvs) k = Some (case map_of (rev kvs) k of None \<Rightarrow> JUndefined | Some v \<Rightarrow> v)"
| "js_prop v k = Some JUndefined"

section \<open>Event ring buffer (event-buffer.ts)\<close>

record EventFrame =
  event :: string
  payload :: json
  seq :: "int option"

record BufferedEvent =
  ts :: int
  frame :: EventFrame

definition DEFAULT_CAPACITY :: int where
  "DEFAULT_CAPACITY = 1000"

record EventBuffer =
  buf :: "BufferedEvent list"
  capacity :: int

text \<open>The constructor: an empty buffer with the given capacity.\<close>

definition new_EventBuffer :: "int \<Rightarrow> EventBuffer" where
  "new_EventBuffer c = \<lparr>buf = [], capacity = c\<rparr>"

text \<open>\<open>Array.prototype.shift\<close> removes the first element and leaves an empty array empty.\<close>

definition shift :: "'a list \<Rightarrow> 'a list" where
  "shift xs = (case xs of [] \<Rightarrow> [] | _ # ys \<Rightarrow> ys)"

text \<open>\<open>push(frame)\<close>, with \<open>now\<close> the value of \<open>Date.now()\<close>.\<close>

definition push :: "EventBuffer \<Rightarrow> EventFrame \<Rightarrow> int \<Rightarrow> EventBuffer" where
  "push b fr now =
     (let b1 = (if int (length (buf b)) \<ge> capacity b then b\<lparr>buf := shift (buf b)\<rparr> else b)
      in b1\<lparr>buf := buf b1 @ [\<lparr>ts = now, frame = fr\<rparr>]\<rparr>)"

record QueryOpts =
  eventType :: "string option"
  since :: "int option"
  limit :: "int option"

text \<open>\<open>results.slice(-n)\<close> for \<open>n > 0\<close>: the last \<open>n\<close> elements.\<close>

definition slice_last :: "int \<Rightarrow> 'a list \<Rightarrow> 'a list" where
  "slice_last n xs = drop (length xs - nat n) xs"

text \<open>
  \<open>query(opts?)\<close>. The guards are JavaScript truthiness tests: an empty \<open>eventType\<close> and a
  \<open>since\<close> or \<open>limit\<close> of \<open>0\<close> count as absent.
\<close>

definition query :: "EventBuffer \<Rightarrow> QueryOpts option \<Rightarrow> BufferedEvent list" where
  "query b opts =
     (let r0 = buf b;
          r1 = (case Option.bind opts eventType of
                  Some t \<Rightarrow> if t \<noteq> [] then filter (\<lambda>e. event (frame e) = t) r0 else r0
                | None \<Rightarrow> r0);
          r2 = (case Option.bind opts since of
                  Some c \<Rightarrow> if c \<noteq> 0 then filter (\<lambda>e. ts e \<ge> c) r1 else r1
                | None \<Rightarrow> r1);
          r3 = (case Option.bind opts limit of
                  Some l \<Rightarrow> if l \<noteq> 0 \<and> l > 0 then slice_last l r2 else r2
                | None \<Rightarrow> r2)
      in r3)"

definition clear :: "EventBuffer \<Rightarrow> EventBuffer" where
  "clear b = b\<lparr>buf := []\<rparr>"

definition size_buf :: "EventBuffer \<Rightarrow> nat" where
  "size_buf b = length (buf b)"

text \<open>A run of pushes: each element is a frame with the clock value at its push.\<close>

fun pushes :: "EventBuffer \<Rightarrow> (EventFrame \<times> int) list \<Rightarrow> EventBuffer" where
  "pushes b [] = b"
| "pushes b ((fr, now) # es) = pushes (push b fr now) es"

definition stamped :: "EventFrame \<times> int \<Rightarrow> BufferedEvent" where
  "stamped e = \<lparr>ts = snd e, frame = fst e\<rparr>"

section \<open>Response correlator (response-router.ts)\<close>

record PendingMessage =
  channelId :: string
  sender :: string
  injectedAt :: int

definition CONTEXT_TIMEOUT_MS :: int where
  "CONTEXT_TIMEOUT_MS = 300000"

text \<open>
  The router. The response callback is an opaque value of type \<open>'cb\<close>; calling it is an
  effect, returned by \<open>routeResponse\<close> as the callback together with its three arguments.
  The source's field \<open>from\<close> of a pending message is named \<open>sender\<close> here.
\<close>

record 'cb ResponseRouter =
  pendingMessages :: "PendingMessage list"
  responseCallback :: "'cb option"

definition new_ResponseRouter :: "'cb ResponseRouter" where
  "new_ResponseRouter = \<lparr>pendingMessages = [], responseCallback = None\<rparr>"

definition onResponse :: "'cb ResponseRouter \<Rightarrow> 'cb \<Rightarrow> 'cb ResponseRouter" where
  "onResponse r cb = r\<lparr>responseCallback := Some cb\<rparr>"

text \<open>The loop of \<open>pruneStale\<close>: shift while the first record is older than the cutoff.\<close>

fun pruneStale_loop :: "int \<Rightarrow> PendingMessage list \<Rightarrow> PendingMessage list" where
  "pruneStale_loop cutoff [] = []"
| "pruneStale_loop cutoff (m # ms) =
     (if injectedAt m < cutoff then pruneStale_loop cutoff ms else m # ms)"

definition pruneStale :: "'cb ResponseRouter \<Rightarrow> int \<Rightarrow> 'cb ResponseRouter" where
  "pruneStale r now =
     r\<lparr>pendingMessages := pruneStale_loop (now - CONTEXT_TIMEOUT_MS) (pendingMessages r)\<rparr>"

text \<open>
  \<open>trackInjection\<close> reads the clock twice: \<open>now\<close> stamps the record, \<open>now'\<close> is the
  clock inside \<open>pruneStale\<close>.
\<close>

definition trackInjection ::
  "'cb ResponseRouter \<Rightarrow> string \<Rightarrow> string \<Rightarrow> int \<Rightarrow> int \<Rightarrow> 'cb ResponseRouter" where
  "trackInjection r c f now now' =
     pruneStale
       (r\<lparr>pendingMessages :=
            pendingMessages r @ [\<lparr>channelId = c, sender = f, injectedAt = now\<rparr>]\<rparr>) now'"

text \<open>
  \<open>routeResponse(text)\<close>: the new router and the call of the response callback, if one
  is made.
\<close>

definition routeResponse ::
  "'cb ResponseRouter \<Rightarrow> string \<Rightarrow> int
     \<Rightarrow> 'cb ResponseRouter \<times> ('cb \<times> string \<times> string \<times> string) option" where
  "routeResponse r text now =
     (let r1 = pruneStale r now
      in case pendingMessages r1 of
           [] \<Rightarrow> (r1, None)
         | p # rest \<Rightarrow>
             (let r2 = r1\<lparr>pendingMessages := rest\<rparr>
              in case responseCallback r2 of
                   None \<Rightarrow> (r2, None)
                 | Some cb \<Rightarrow> (r2, Some (cb, channelId p, sender p, text))))"

section \<open>What the two connections share\<close>

text \<open>
  Both \<open>CdpBridge\<close> and \<open>GatewayClient\<close> hold a socket, a map of pending requests, the
  \<open>closed\<close> flag and the backoff interval. Of the socket the program reads only
  \<open>readyState\<close>; \<open>None\<close> is the \<open>null\<close> reference.
\<close>

datatype ReadyState = CONNECTING | OPEN | CLOSING | CLOSED

text \<open>The errors the program raises; the message of each is fixed by its constructor.\<close>

datatype error =
    CdpNotConnected          \<comment> \<open>"CDP WebSocket not connected"\<close>
  | CdpDisconnected          \<comment> \<open>"CDP bridge disconnected"\<close>
  | CdpClosed                \<comment> \<open>"CDP WebSocket closed"\<close>
  | NoTarget                 \<comment> \<open>"No CDP target with webSocketDebuggerUrl found"\<close>
  | DiscoveryFailed int      \<comment> \<open>"CDP target discovery failed: HTTP status"\<close>
  | GatewayNotConnected      \<comment> \<open>"gateway not connected"\<close>
  | GatewayClosed int string \<comment> \<open>"gateway closed (code): reason"\<close>
  | GatewayStopped           \<comment> \<open>"gateway client stopped"\<close>
  | ServerError string       \<comment> \<open>\<open>new Error(m)\<close> for a message \<open>m\<close> taken from a response\<close>
  | TransportError string    \<comment> \<open>an error raised by the socket, \<open>fetch\<close> or \<open>new URL\<close>\<close>
  | TypeError                \<comment> \<open>property access on \<open>undefined\<close> or \<open>null\<close>\<close>

datatype outcome = Resolved json | Rejected error

text \<open>
  A promise is identified by the number of its allocation. The program attaches a
  continuation to the promises of two of its own calls: the health ping of the bridge
  (\<open>.catch\<close> closes the socket) and the handshake of the gateway client
  (\<open>.then\<close>/\<open>.catch\<close> in \<open>sendConnect\<close>). All other promises go to the caller.
\<close>

datatype awaiter = Caller | HealthPing | Handshake

text \<open>
  An entry of the pending map: the \<open>resolve\<close> and \<open>reject\<close> functions of promise
  number \<open>promise\<close>, whose continuation is \<open>awaiter\<close>.
\<close>

record Pending =
  promise :: nat
  awaiter :: awaiter

record URL =
  protocol :: string
  hostname :: string
  port :: "int option"
  pathname :: string

datatype endpoint = UrlString string | UrlRecord URL

datatype notification =
    OnEvent EventFrame
  | OnHelloOk json
  | OnClose int string
  | OnConnectError error
  | Listener nat json

text \<open>What a step does to the outside, in order.\<close>

datatype 'id effect =
    WsSend 'id string json          \<comment> \<open>\<open>ws.send(JSON.stringify({id, method, params}))\<close>\<close>
  | Settle nat outcome              \<comment> \<open>a call of \<open>resolve\<close> or \<open>reject\<close> of a promise\<close>
  | SetTimeout int                  \<comment> \<open>the reconnect timer, with its delay\<close>
  | SetInterval int
  | ClearInterval
  | WsCloseCall "(int \<times> string) option" \<comment> \<open>\<open>ws.close(code, reason)\<close>\<close>
  | NewWebSocket endpoint
  | Notify notification             \<comment> \<open>a call of a callback supplied by the user\<close>

text \<open>The continuations queued as microtasks.\<close>

datatype job = ThenHello json | CatchConnect error | CatchPing

record 'id connection =
  ws :: "ReadyState option"
  pending :: "('id \<times> Pending) list"
  closed :: bool
  backoffMs :: int
  nextPromise :: nat
  jobs :: "job list"
  effects :: "'id effect list"

text \<open>
  The pending map is a JavaScript \<open>Map\<close>: an association list in insertion order,
  read with \<open>map_of\<close>, written with \<open>AList.update\<close> (\<open>set\<close> keeps the place of a
  key already there) and \<open>AList.delete\<close>.
\<close>

definition emit :: "('id, 'm) connection_scheme \<Rightarrow> 'id effect list \<Rightarrow> ('id, 'm) connection_scheme" where
  "emit s fx = s\<lparr>effects := effects s @ fx\<rparr>"

fun continuation :: "awaiter \<Rightarrow> outcome \<Rightarrow> job list" where
  "continuation Handshake (Resolved v) = [ThenHello v]"
| "continuation Handshake (Rejected e) = [CatchConnect e]"
| "continuation HealthPing (Rejected e) = [CatchPing]"
| "continuation _ _ = []"

text \<open>
  A call of \<open>p.resolve\<close> or \<open>p.reject\<close>; the continuation is queued. (A call on a
  promise that is settled already would do nothing in JavaScript; no reachable state
  makes one, since a promise is held by one entry of the map and leaves it when it is
  settled, as \<open>view_wf\<close> below states.)
\<close>

definition settle ::
  "('id, 'm) connection_scheme \<Rightarrow> Pending \<Rightarrow> outcome \<Rightarrow> ('id, 'm) connection_scheme" where
  "settle s p out =
     s\<lparr>effects := effects s @ [Settle (promise p) out],
       jobs := jobs s @ continuation (awaiter p) out\<rparr>"

text \<open>
  \<open>for (const [, p] of this.pending) p.reject(err); this.pending.clear()\<close>: the body of
  \<open>rejectAllPending\<close> and of \<open>flushPendingErrors\<close>.
\<close>

definition reject_all ::
  "('id, 'm) connection_scheme \<Rightarrow> error \<Rightarrow> ('id, 'm) connection_scheme" where
  "reject_all s err =
     (fold (\<lambda>kp s'. settle s' (snd kp) (Rejected err)) (pending s) s)\<lparr>pending := []\<rparr>"

text \<open>
  \<open>this.ws?.close(...)\<close>. In the \<open>ws\<close> library a socket that is connecting or open
  goes to \<open>CLOSING\<close>; its \<open>close\<close> event comes later.
\<close>

definition close_socket ::
  "('id, 'm) connection_scheme \<Rightarrow> (int \<times> string) option \<Rightarrow> ('id, 'm) connection_scheme" where
  "close_socket s args =
     (case ws s of
        None \<Rightarrow> s
      | Some rs \<Rightarrow>
          emit (s\<lparr>ws := Some (if rs = CLOSED then CLOSED else CLOSING)\<rparr>) [WsCloseCall args])"

text \<open>The promises settled by a list of effects, in order.\<close>

fun settled :: "'id effect list \<Rightarrow> (nat \<times> outcome) list" where
  "settled [] = []"
| "settled (Settle p out # fx) = (p, out) # settled fx"
| "settled (_ # fx) = settled fx"

text \<open>The delays of the reconnect timers set by a list of effects, in order.\<close>

fun delays :: "'id effect list \<Rightarrow> int list" where
  "delays [] = []"
| "delays (SetTimeout d # fx) = d # delays fx"
| "delays (_ # fx) = delays fx"

text \<open>The correlation ids sent by a list of effects, in order.\<close>

fun sent_ids :: "'id effect list \<Rightarrow> 'id list" where
  "sent_ids [] = []"
| "sent_ids (WsSend i m ps # fx) = i # sent_ids fx"
| "sent_ids (_ # fx) = sent_ids fx"

text \<open>The backoff sequence of the specification: the delay before the \<open>N\<close>th attempt.\<close>

definition backoff_delay :: "nat \<Rightarrow> int" where
  "backoff_delay N = min (1000 * 2 ^ (N - 1)) 30000"

section \<open>Target control connection (cdp-bridge.ts)\<close>

record CdpTarget =
  t_id :: string
  t_type :: string
  t_title :: string
  t_url :: string
  webSocketDebuggerUrl :: "string option"

record ErrorBody =
  message :: "string option"

text \<open>
  A parsed message of the control channel; a field that is absent, or not of the type
  the handler tests for, is \<open>None\<close>. Correlation ids are the integers that \<open>send\<close>
  issues. The fields \<open>id\<close>, \<open>method\<close>, \<open>params\<close>, \<open>result\<close> and \<open>error\<close> carry the
  prefix \<open>msg_\<close> here, and those of a target the prefix \<open>t_\<close>.
\<close>

record CdpMessage =
  msg_id :: "int option"
  msg_method :: "string option"
  msg_params :: "json option"
  msg_result :: json
  msg_error :: "ErrorBody option"

text \<open>
  The bridge. Event listeners are numbered; the listeners of an event name are kept in
  the insertion order of the \<open>Set\<close>. The timer handle \<open>pingTimer\<close> is kept as the
  interval of the running timer. The fields \<open>selectors\<close> and \<open>responseCallback\<close> belong
  to the operations layered on \<open>send\<close> (\<open>injectMessage\<close>, \<open>observeResponses\<close>,
  \<open>readLastResponse\<close>), whose calls of \<open>send\<close> are calls like any other.
\<close>

record CdpBridge = "int connection" +
  nextId :: int
  eventListeners :: "(string \<times> nat list) list"
  pingTimer :: "int option"
  connectHost :: string
  connectPort :: int

definition new_CdpBridge :: CdpBridge where
  "new_CdpBridge =
     \<lparr>ws = None, pending = [], closed = False, backoffMs = 1000,
      nextPromise = 0, jobs = [], effects = [],
      nextId = 1, eventListeners = [], pingTimer = None,
      connectHost = ''127.0.0.1'', connectPort = 19222\<rparr>"

definition isConnected :: "CdpBridge \<Rightarrow> bool" where
  "isConnected s = (ws s = Some OPEN)"

definition stopHealthPing :: "CdpBridge \<Rightarrow> CdpBridge" where
  "stopHealthPing s =
     (case pingTimer s of
        None \<Rightarrow> s
      | Some _ \<Rightarrow> emit (s\<lparr>pingTimer := None\<rparr>) [ClearInterval])"

definition startHealthPing :: "CdpBridge \<Rightarrow> CdpBridge" where
  "startHealthPing s = emit ((stopHealthPing s)\<lparr>pingTimer := Some 10000\<rparr>) [SetInterval 10000]"

text \<open>
  \<open>send(method, params)\<close>: the error thrown, or the promise returned. The awaiter is
  \<open>Caller\<close> except for the health ping.
\<close>

definition send ::
  "CdpBridge \<Rightarrow> awaiter \<Rightarrow> string \<Rightarrow> json \<Rightarrow> CdpBridge \<times> (error + nat)" where
  "send s aw method params =
     (if ws s \<noteq> Some OPEN then (s, Inl CdpNotConnected)
      else
        let i = nextId s;
            s1 = emit (s\<lparr>nextId := i + 1\<rparr>) [WsSend i method params];
            p = nextPromise s1;
            s2 = s1\<lparr>pending := AList.update i \<lparr>promise = p, awaiter = aw\<rparr> (pending s1),
                    nextPromise := p + 1\<rparr>
        in (s2, Inr p))"

definition on :: "CdpBridge \<Rightarrow> string \<Rightarrow> nat \<Rightarrow> CdpBridge" where
  "on s ev l =
     (case map_of (eventListeners s) ev of
        None \<Rightarrow> s\<lparr>eventListeners := AList.update ev [l] (eventListeners s)\<rparr>
      | Some ls \<Rightarrow>
          s\<lparr>eventListeners :=
              AList.update ev (if l \<in> set ls then ls else ls @ [l]) (eventListeners s)\<rparr>)"

definition off :: "CdpBridge \<Rightarrow> string \<Rightarrow> nat \<Rightarrow> CdpBridge" where
  "off s ev l =
     (case map_of (eventListeners s) ev of
        None \<Rightarrow> s
      | Some ls \<Rightarrow> s\<lparr>eventListeners := AList.update ev (removeAll l ls) (eventListeners s)\<rparr>)"

definition rejectAllPending :: "CdpBridge \<Rightarrow> error \<Rightarrow> CdpBridge" where
  "rejectAllPending s err = reject_all s err"

definition disconnect :: "CdpBridge \<Rightarrow> CdpBridge" where
  "disconnect s =
     (let s1 = s\<lparr>closed := True\<rparr>;
          s2 = stopHealthPing s1;
          s3 = rejectAllPending s2 CdpDisconnected
      in case ws s3 of
           None \<Rightarrow> s3
         | Some _ \<Rightarrow> (close_socket s3 None)\<lparr>ws := None\<rparr>)"

text \<open>\<open>parsed.error?.message\<close>, as the truthiness test of the handler sees it.\<close>

definition error_message :: "ErrorBody option \<Rightarrow> string option" where
  "error_message e =
     (case e of
        None \<Rightarrow> None
      | Some b \<Rightarrow> (case message b of None \<Rightarrow> None | Some m \<Rightarrow> if m = [] then None else Some m))"

text \<open>
  The \<open>message\<close> handler of \<open>attachHandlers\<close>. \<open>None\<close> is a frame that \<open>JSON.parse\<close>
  rejects or that is no object: the \<open>try\<close> block leaves the bridge as it is.
\<close>

definition on_message :: "CdpBridge \<Rightarrow> CdpMessage option \<Rightarrow> CdpBridge" where
  "on_message s parsed =
     (case parsed of
        None \<Rightarrow> s
      | Some m \<Rightarrow>
          (case msg_id m of
             Some i \<Rightarrow>
               (case map_of (pending s) i of
                  None \<Rightarrow> s
                | Some p \<Rightarrow>
                    (let s1 = s\<lparr>pending := AList.delete i (pending s)\<rparr>
                     in case error_message (msg_error m) of
                          Some msg \<Rightarrow> settle s1 p (Rejected (ServerError msg))
                        | None \<Rightarrow> settle s1 p (Resolved (msg_result m))))
           | None \<Rightarrow>
               (case msg_method m of
                  None \<Rightarrow> s
                | Some meth \<Rightarrow>
                    (case map_of (eventListeners s) meth of
                       None \<Rightarrow> s
                     | Some ls \<Rightarrow>
                         emit s (map (\<lambda>l. Notify (Listener l
                                   (case msg_params m of None \<Rightarrow> JObj [] | Some ps \<Rightarrow> ps))) ls)))))"

definition scheduleReconnect :: "CdpBridge \<Rightarrow> CdpBridge" where
  "scheduleReconnect s =
     (if closed s then s
      else
        let delay = backoffMs s
        in emit (s\<lparr>backoffMs := min (backoffMs s * 2) 30000\<rparr>) [SetTimeout delay])"

text \<open>The \<open>close\<close> and \<open>error\<close> handlers of \<open>attachHandlers\<close>.\<close>

definition on_close :: "CdpBridge \<Rightarrow> CdpBridge" where
  "on_close s =
     (let s1 = rejectAllPending s CdpClosed;
          s2 = s1\<lparr>ws := None\<rparr>;
          s3 = stopHealthPing s2
      in scheduleReconnect s3)"

definition on_error :: "CdpBridge \<Rightarrow> string \<Rightarrow> CdpBridge" where
  "on_error s err = rejectAllPending s (TransportError err)"

text \<open>
  \<open>connect\<close> runs in three parts, with an \<open>await\<close> between them: the assignments
  before the discovery, the choice of the target, and what follows the \<open>open\<close> event of
  the new socket (\<open>this.ws = ws; attachHandlers(ws)\<close>, then \<open>backoffMs = 1000\<close> and
  \<open>startHealthPing()\<close>).
\<close>

definition connect_begin :: "CdpBridge \<Rightarrow> string \<Rightarrow> int \<Rightarrow> CdpBridge" where
  "connect_begin s host port' = s\<lparr>closed := False, connectHost := host, connectPort := port'\<rparr>"

definition connect_opened :: "CdpBridge \<Rightarrow> CdpBridge" where
  "connect_opened s = startHealthPing (s\<lparr>ws := Some OPEN, backoffMs := 1000\<rparr>)"

text \<open>The answer of \<open>fetch\<close> to the discovery request.\<close>

datatype fetch_result =
    FetchFailed string                          \<comment> \<open>network error or abort after 5 s\<close>
  | HttpResponse bool int "CdpTarget list option" \<comment> \<open>\<open>res.ok\<close>, \<open>res.status\<close>, \<open>res.json()\<close>\<close>

definition discoverTargets :: "fetch_result \<Rightarrow> error + CdpTarget list" where
  "discoverTargets r =
     (case r of
        FetchFailed e \<Rightarrow> Inl (TransportError e)
      | HttpResponse ok status body \<Rightarrow>
          if \<not> ok then Inl (DiscoveryFailed status)
          else (case body of
                  None \<Rightarrow> Inl (TransportError ''invalid JSON'')
                | Some targets \<Rightarrow> Inr targets))"

text \<open>\<open>targets.find((t) => t.type === "page") ?? targets[0]\<close>\<close>

definition select_target :: "CdpTarget list \<Rightarrow> CdpTarget option" where
  "select_target targets =
     (case find (\<lambda>t. t_type t = ''page'') targets of
        Some t \<Rightarrow> Some t
      | None \<Rightarrow> (case targets of [] \<Rightarrow> None | t # _ \<Rightarrow> Some t))"

definition isLoopback :: "string \<Rightarrow> bool" where
  "isLoopback h = (h = ''localhost'' \<or> h = ''127.0.0.1'' \<or> h = ''::1'' \<or> h = ''[::1]'')"

definition normalizeCdpWsUrl :: "URL \<Rightarrow> string \<Rightarrow> int \<Rightarrow> URL" where
  "normalizeCdpWsUrl u host port' =
     (if isLoopback (hostname u) \<and> \<not> isLoopback host
      then u\<lparr>hostname := host, port := Some port'\<rparr>
      else u)"

text \<open>
  \<open>connect(host, port)\<close> as a whole, when nothing else happens between its parts. The
  environment gives the answer of \<open>fetch\<close>, the parser \<open>new URL\<close> (\<open>None\<close> when it
  throws) and the result of opening the socket (\<open>Some\<close> error, or \<open>None\<close> for the
  \<open>open\<close> event).
\<close>

definition connect ::
  "CdpBridge \<Rightarrow> string \<Rightarrow> int \<Rightarrow> fetch_result \<Rightarrow> (string \<Rightarrow> URL option)
     \<Rightarrow> (URL \<Rightarrow> string option) \<Rightarrow> CdpBridge \<times> (error + unit)" where
  "connect s host port' fetched parse_url dial =
     (let s1 = connect_begin s host port'
      in case discoverTargets fetched of
           Inl e \<Rightarrow> (s1, Inl e)
         | Inr targets \<Rightarrow>
             (case Option.bind (select_target targets) webSocketDebuggerUrl of
                None \<Rightarrow> (s1, Inl NoTarget)
              | Some u \<Rightarrow>
                  if u = [] then (s1, Inl NoTarget)
                  else
                    (case parse_url u of
                       None \<Rightarrow> (s1, Inl (TransportError ''Invalid URL''))
                     | Some parsed \<Rightarrow>
                         (let wsUrl = normalizeCdpWsUrl parsed host port';
                              s2 = emit s1 [NewWebSocket (UrlRecord wsUrl)]
                          in case dial wsUrl of
                               Some e \<Rightarrow> (s2, Inl (TransportError e))
                             | None \<Rightarrow> (connect_opened s2, Inr ())))))"

text \<open>The callback of the reconnect timer, up to the first \<open>await\<close> of \<open>connect\<close>.\<close>

definition reconnect_timer :: "CdpBridge \<Rightarrow> CdpBridge" where
  "reconnect_timer s =
     (if closed s then s else connect_begin s (connectHost s) (connectPort s))"

text \<open>The callback of the ping timer; a cleared timer does not fire.\<close>

definition ping_timer :: "CdpBridge \<Rightarrow> CdpBridge" where
  "ping_timer s =
     (case pingTimer s of
        None \<Rightarrow> s
      | Some _ \<Rightarrow>
          if \<not> isConnected s then s
          else fst (send s HealthPing ''Runtime.evaluate'' (JObj [(''expression'', JStr ''1'')])))"

text \<open>The continuations of the bridge: only the \<open>.catch\<close> of the health ping acts.\<close>

fun cdp_run_job :: "job \<Rightarrow> CdpBridge \<Rightarrow> CdpBridge" where
  "cdp_run_job CatchPing s = close_socket s None"
| "cdp_run_job _ s = s"

definition cdp_drain :: "CdpBridge \<Rightarrow> CdpBridge" where
  "cdp_drain s = fold cdp_run_job (jobs s) (s\<lparr>jobs := []\<rparr>)"

text \<open>
  What can happen to a bridge: the calls of its methods, the events of its socket and
  its timers. Each runs to completion, and the queued continuations run after it.
\<close>

datatype cdp_event =
    Connect_begin string int
  | Connect_opened
  | Send string json
  | On string nat
  | Off string nat
  | Disconnect
  | Message "CdpMessage option"
  | Close
  | Error string
  | Reconnect_timer
  | Ping_timer

fun cdp_handle :: "CdpBridge \<Rightarrow> cdp_event \<Rightarrow> CdpBridge" where
  "cdp_handle s (Connect_begin host port') = connect_begin s host port'"
| "cdp_handle s Connect_opened = connect_opened s"
| "cdp_handle s (Send method params) = fst (send s Caller method params)"
| "cdp_handle s (On ev l) = on s ev l"
| "cdp_handle s (Off ev l) = off s ev l"
| "cdp_handle s Disconnect = disconnect s"
| "cdp_handle s (Message parsed) = on_message s parsed"
| "cdp_handle s Close = on_close s"
| "cdp_handle s (Error err) = on_error s err"
| "cdp_handle s Reconnect_timer = reconnect_timer s"
| "cdp_handle s Ping_timer = ping_timer s"

definition cdp_step :: "CdpBridge \<Rightarrow> cdp_event \<Rightarrow> CdpBridge" where
  "cdp_step s ev = cdp_drain (cdp_handle s ev)"

definition cdp_run :: "CdpBridge \<Rightarrow> cdp_event list \<Rightarrow> CdpBridge" where
  "cdp_run s evs = foldl cdp_step s evs"


section \<open>Gateway connection (gateway-client.ts)\<close>

record ResponseFrame =
  res_id :: string
  ok :: bool
  res_payload :: json
  res_error :: "ErrorBody option"

text \<open>
  A parsed frame of the gateway channel, by its \<open>type\<close> field: \<open>"event"\<close>, \<open>"res"\<close>,
  or anything else. \<open>None\<close> stands for text that \<open>JSON.parse\<close> rejects. The field
  \<open>ok\<close> is the truth value of \<open>res.ok\<close>; a response whose id is no string finds no
  pending request and is an \<open>OtherMsg\<close>.
\<close>

datatype gw_frame = EventMsg EventFrame | ResMsg ResponseFrame | OtherMsg

definition PROTOCOL_VERSION :: int where
  "PROTOCOL_VERSION = 1"

text \<open>
  The client. \<open>url\<close> and \<open>token\<close> are the options of the constructor, \<open>platform\<close>
  is \<open>process.platform\<close>; the callbacks of the options appear as \<open>Notify\<close> effects.
  The timer handle \<open>tickTimer\<close> is kept as the interval of the running timer.
\<close>

record GatewayClient = "string connection" +
  url :: "string option"
  token :: "string option"
  platform :: string
  connectNonce :: "string option"
  connectSent :: bool
  lastTick :: "int option"
  tickIntervalMs :: int
  tickTimer :: "int option"

definition new_GatewayClient :: "string option \<Rightarrow> string option \<Rightarrow> string \<Rightarrow> GatewayClient" where
  "new_GatewayClient u t pf =
     \<lparr>ws = None, pending = [], closed = False, backoffMs = 1000,
      nextPromise = 0, jobs = [], effects = [],
      url = u, token = t, platform = pf,
      connectNonce = None, connectSent = False, lastTick = None,
      tickIntervalMs = 30000, tickTimer = None\<rparr>"

definition start :: "GatewayClient \<Rightarrow> GatewayClient" where
  "start s =
     (if closed s then s
      else
        emit (s\<lparr>ws := Some CONNECTING\<rparr>)
          [NewWebSocket (UrlString (case url s of None \<Rightarrow> ''ws://127.0.0.1:18789'' | Some u \<Rightarrow> u))])"

definition flushPendingErrors :: "GatewayClient \<Rightarrow> error \<Rightarrow> GatewayClient" where
  "flushPendingErrors s err = reject_all s err"

definition clearTickTimer :: "GatewayClient \<Rightarrow> GatewayClient" where
  "clearTickTimer s =
     (case tickTimer s of
        None \<Rightarrow> s
      | Some _ \<Rightarrow> emit (s\<lparr>tickTimer := None\<rparr>) [ClearInterval])"

definition stop :: "GatewayClient \<Rightarrow> GatewayClient" where
  "stop s =
     (let s1 = s\<lparr>closed := True\<rparr>;
          s2 = clearTickTimer s1;
          s3 = close_socket s2 None;
          s4 = s3\<lparr>ws := None\<rparr>
      in flushPendingErrors s4 GatewayStopped)"

definition gw_isConnected :: "GatewayClient \<Rightarrow> bool" where
  "gw_isConnected s = (ws s = Some OPEN \<and> connectSent s)"

text \<open>
  \<open>request(method, params)\<close>, with \<open>uuid\<close> the value of \<open>randomUUID()\<close>: the error
  thrown, or the promise returned. The awaiter is \<open>Caller\<close> except for the handshake.
\<close>

definition request ::
  "GatewayClient \<Rightarrow> awaiter \<Rightarrow> string \<Rightarrow> json \<Rightarrow> string \<Rightarrow> GatewayClient \<times> (error + nat)" where
  "request s aw method params uuid =
     (if ws s \<noteq> Some OPEN then (s, Inl GatewayNotConnected)
      else
        let p = nextPromise s;
            s1 = s\<lparr>pending := AList.update uuid \<lparr>promise = p, awaiter = aw\<rparr> (pending s),
                   nextPromise := p + 1\<rparr>
        in (emit s1 [WsSend uuid method params], Inr p))"

definition connect_params :: "GatewayClient \<Rightarrow> json" where
  "connect_params s =
     JObj [(''minProtocol'', JNum PROTOCOL_VERSION),
           (''maxProtocol'', JNum PROTOCOL_VERSION),
           (''client'', JObj [(''id'', JStr ''clawbridge-mcp''),
                              (''version'', JStr ''0.1.0''),
                              (''platform'', JStr (platform s)),
                              (''mode'', JStr ''backend'')]),
           (''caps'', JArr []),
           (''auth'', (case token s of
                         None \<Rightarrow> JUndefined
                       | Some t \<Rightarrow> if t = [] then JUndefined else JObj [(''token'', JStr t)])),
           (''role'', JStr ''operator''),
           (''scopes'', JArr [JStr ''operator.admin''])]"

text \<open>
  \<open>sendConnect()\<close>. When \<open>request\<close> throws, the promise of the \<open>async\<close> function is
  rejected and the \<open>.catch\<close> continuation is queued.
\<close>

definition sendConnect :: "GatewayClient \<Rightarrow> string \<Rightarrow> GatewayClient" where
  "sendConnect s uuid =
     (if connectSent s then s
      else
        let s1 = s\<lparr>connectSent := True\<rparr>
        in case request s1 Handshake ''connect'' (connect_params s1) uuid of
             (s2, Inr p) \<Rightarrow> s2
           | (s2, Inl e) \<Rightarrow> s2\<lparr>jobs := jobs s2 @ [CatchConnect e]\<rparr>)"

text \<open>
  \<open>payload && typeof payload.nonce === "string" ? payload.nonce : null\<close>, followed by
  the test \<open>if (nonce)\<close>.
\<close>

definition challenge_nonce :: "json \<Rightarrow> string option" where
  "challenge_nonce pl =
     (if truthy pl
      then (case js_prop pl ''nonce'' of
              Some (JStr n) \<Rightarrow> if n = [] then None else Some n
            | _ \<Rightarrow> None)
      else None)"

text \<open>\<open>res.error?.message ?? "unknown error"\<close>\<close>

definition res_message :: "ErrorBody option \<Rightarrow> string" where
  "res_message e =
     (case e of
        None \<Rightarrow> ''unknown error''
      | Some b \<Rightarrow> (case message b of None \<Rightarrow> ''unknown error'' | Some m \<Rightarrow> m))"

text \<open>\<open>handleMessage(raw)\<close>, on the parsed frame, with the clock and the next UUID.\<close>

definition handleMessage ::
  "GatewayClient \<Rightarrow> gw_frame option \<Rightarrow> int \<Rightarrow> string \<Rightarrow> GatewayClient" where
  "handleMessage s parsed now uuid =
     (case parsed of
        None \<Rightarrow> s
      | Some (EventMsg evt) \<Rightarrow>
          if event evt = ''connect.challenge'' then
            (case challenge_nonce (payload evt) of
               Some n \<Rightarrow> sendConnect (s\<lparr>connectNonce := Some n\<rparr>) uuid
             | None \<Rightarrow> s)
          else
            (let s1 = (if event evt = ''tick'' then s\<lparr>lastTick := Some now\<rparr> else s)
             in emit s1 [Notify (OnEvent evt)])
      | Some (ResMsg res) \<Rightarrow>
          (case map_of (pending s) (res_id res) of
             None \<Rightarrow> s
           | Some p \<Rightarrow>
               (let s1 = s\<lparr>pending := AList.delete (res_id res) (pending s)\<rparr>
                in if ok res then settle s1 p (Resolved (res_payload res))
                   else settle s1 p (Rejected (ServerError (res_message (res_error res))))))
      | Some OtherMsg \<Rightarrow> s)"

definition gw_scheduleReconnect :: "GatewayClient \<Rightarrow> GatewayClient" where
  "gw_scheduleReconnect s =
     (if closed s then s
      else
        let s1 = clearTickTimer s;
            delay = backoffMs s1
        in emit (s1\<lparr>backoffMs := min (backoffMs s1 * 2) 30000,
                    connectNonce := None, connectSent := False\<rparr>) [SetTimeout delay])"

text \<open>The \<open>close\<close> and \<open>error\<close> handlers installed by \<open>start\<close>.\<close>

definition gw_on_close :: "GatewayClient \<Rightarrow> int \<Rightarrow> string \<Rightarrow> GatewayClient" where
  "gw_on_close s code reason =
     (let s1 = s\<lparr>ws := None\<rparr>;
          s2 = flushPendingErrors s1 (GatewayClosed code reason);
          s3 = gw_scheduleReconnect s2
      in emit s3 [Notify (OnClose code reason)])"

definition gw_on_error :: "GatewayClient \<Rightarrow> string \<Rightarrow> GatewayClient" where
  "gw_on_error s err =
     (if \<not> connectSent s then emit s [Notify (OnConnectError (TransportError err))] else s)"

text \<open>
  The \<open>open\<close> handler is empty; the library has set \<open>readyState\<close> of the connecting
  socket to \<open>OPEN\<close>.
\<close>

definition gw_on_open :: "GatewayClient \<Rightarrow> GatewayClient" where
  "gw_on_open s = (if ws s = Some CONNECTING then s\<lparr>ws := Some OPEN\<rparr> else s)"

definition startTickWatch :: "GatewayClient \<Rightarrow> GatewayClient" where
  "startTickWatch s =
     (let s1 = (case tickTimer s of None \<Rightarrow> s | Some _ \<Rightarrow> emit s [ClearInterval]);
          interval = max (tickIntervalMs s1) 1000
      in emit (s1\<lparr>tickTimer := Some interval\<rparr>) [SetInterval interval])"

text \<open>
  The callback of the watchdog timer, with the clock. \<open>!this.lastTick\<close> holds for
  \<open>null\<close> and for \<open>0\<close>.
\<close>

definition tick_watch :: "GatewayClient \<Rightarrow> int \<Rightarrow> GatewayClient" where
  "tick_watch s now =
     (if closed s \<or> lastTick s = None \<or> lastTick s = Some 0 then s
      else if now - the (lastTick s) > tickIntervalMs s * 2
           then close_socket s (Some (4000, ''tick timeout''))
           else s)"

text \<open>A cleared timer does not fire.\<close>

definition tick_timer :: "GatewayClient \<Rightarrow> int \<Rightarrow> GatewayClient" where
  "tick_timer s now = (case tickTimer s of None \<Rightarrow> s | Some _ \<Rightarrow> tick_watch s now)"

text \<open>
  \<open>typeof helloOk.policy?.tickIntervalMs === "number" ? ... : 30_000\<close>; \<open>None\<close> when
  \<open>helloOk\<close> is \<open>undefined\<close> or \<open>null\<close> and the access throws.
\<close>

definition hello_tickIntervalMs :: "json \<Rightarrow> int option" where
  "hello_tickIntervalMs helloOk =
     (case js_prop helloOk ''policy'' of
        None \<Rightarrow> None
      | Some policy \<Rightarrow>
          (case js_prop policy ''tickIntervalMs'' of
             Some (JNum n) \<Rightarrow> Some n
           | _ \<Rightarrow> Some 30000))"

text \<open>
  The \<open>.then\<close> continuation of \<open>sendConnect\<close>. When it throws, the assignment to
  \<open>backoffMs\<close> has been made and the \<open>.catch\<close> continuation is queued.
\<close>

definition then_hello :: "GatewayClient \<Rightarrow> json \<Rightarrow> int \<Rightarrow> GatewayClient" where
  "then_hello s helloOk now =
     (let s1 = s\<lparr>backoffMs := 1000\<rparr>
      in case hello_tickIntervalMs helloOk of
           None \<Rightarrow> s1\<lparr>jobs := jobs s1 @ [CatchConnect TypeError]\<rparr>
         | Some t \<Rightarrow>
             (let s2 = s1\<lparr>tickIntervalMs := t, lastTick := Some now\<rparr>;
                  s3 = startTickWatch s2
              in emit s3 [Notify (OnHelloOk helloOk)]))"

text \<open>The \<open>.catch\<close> continuation of \<open>sendConnect\<close>.\<close>

definition catch_connect :: "GatewayClient \<Rightarrow> error \<Rightarrow> GatewayClient" where
  "catch_connect s err =
     close_socket (emit s [Notify (OnConnectError err)]) (Some (1008, ''connect failed''))"

fun gw_run_job :: "int \<Rightarrow> job \<Rightarrow> GatewayClient \<Rightarrow> GatewayClient" where
  "gw_run_job now (ThenHello v) s = then_hello s v now"
| "gw_run_job now (CatchConnect e) s = catch_connect s e"
| "gw_run_job now CatchPing s = s"

text \<open>
  The microtask queue is emptied after each handler: first the continuations queued by
  the handler, then those queued by them (a \<open>.then\<close> that threw).
\<close>

definition gw_drain :: "GatewayClient \<Rightarrow> int \<Rightarrow> GatewayClient" where
  "gw_drain s now =
     (let s1 = fold (gw_run_job now) (jobs s) (s\<lparr>jobs := []\<rparr>)
      in (fold (gw_run_job now) (jobs s1) (s1\<lparr>jobs := []\<rparr>))\<lparr>jobs := []\<rparr>)"

text \<open>
  What can happen to a client: the calls of its methods, the events of its socket and
  its timers. The step takes the values that \<open>Date.now()\<close> and \<open>randomUUID()\<close> yield
  while it runs.
\<close>

datatype gw_event =
    Start
  | Stop
  | Request string json
  | Opened
  | Frame "gw_frame option"
  | Closed int string
  | Failed string
  | Reconnect_due
  | Tick_timer

fun gw_handle :: "GatewayClient \<Rightarrow> gw_event \<Rightarrow> int \<Rightarrow> string \<Rightarrow> GatewayClient" where
  "gw_handle s Start now uuid = start s"
| "gw_handle s Stop now uuid = stop s"
| "gw_handle s (Request method params) now uuid = fst (request s Caller method params uuid)"
| "gw_handle s Opened now uuid = gw_on_open s"
| "gw_handle s (Frame parsed) now uuid = handleMessage s parsed now uuid"
| "gw_handle s (Closed code reason) now uuid = gw_on_close s code reason"
| "gw_handle s (Failed err) now uuid = gw_on_error s err"
| "gw_handle s Reconnect_due now uuid = start s"
| "gw_handle s Tick_timer now uuid = tick_timer s now"

definition gw_step :: "GatewayClient \<Rightarrow> gw_event \<times> int \<times> string \<Rightarrow> GatewayClient" where
  "gw_step s x = (case x of (ev, now, uuid) \<Rightarrow> gw_drain (gw_handle s ev now uuid) now)"

definition gw_run :: "GatewayClient \<Rightarrow> (gw_event \<times> int \<times> string) list \<Rightarrow> GatewayClient" where
  "gw_run s xs = foldl gw_step s xs"


section \<open>Notions used in the statements\<close>

text \<open>The address connect goes on with: that of the chosen target, if it has one.\<close>

definition chosen_url :: "CdpTarget list \<Rightarrow> string option" where
  "chosen_url targets =
     (case Option.bind (select_target targets) webSocketDebuggerUrl of
        None \<Rightarrow> None
      | Some u \<Rightarrow> if u = [] then None else Some u)"

text \<open>
  The event acknowledges a pending handshake: an \<open>ok\<close> response whose id is that of the
  \<open>connect\<close> request. It is the successful reopening of the gateway connection.
\<close>

fun gw_reopens :: "GatewayClient \<Rightarrow> gw_event \<Rightarrow> bool" where
  "gw_reopens s (Frame (Some (ResMsg r))) =
     (ok r \<and> (case map_of (pending s) (res_id r) of
                None \<Rightarrow> False
              | Some p \<Rightarrow> awaiter p = Handshake))"
| "gw_reopens s _ = False"

fun gw_no_reopen :: "GatewayClient \<Rightarrow> (gw_event \<times> int \<times> string) list \<Rightarrow> bool" where
  "gw_no_reopen s [] = True"
| "gw_no_reopen s (x # xs) = (\<not> gw_reopens s (fst x) \<and> gw_no_reopen (gw_step s x) xs)"

text \<open>Continuations that belong to \<open>.then\<close> of the handshake.\<close>

fun is_then :: "job \<Rightarrow> bool" where
  "is_then (ThenHello v) = True"
| "is_then _ = False"

text \<open>All keys of the pending map of a bridge lie between \<open>lo\<close> and the id counter.\<close>

definition keys_between :: "int \<Rightarrow> CdpBridge \<Rightarrow> bool" where
  "keys_between lo s \<longleftrightarrow> lo \<le> nextId s \<and> (\<forall>k \<in> fst ` set (pending s). lo \<le> k \<and> k < nextId s)"

text \<open>
  What the correlation of requests and responses is about: the pending map, the
  number of promises created so far, and the promises settled so far, in order.
\<close>

type_synonym 'id view = "('id \<times> Pending) list \<times> nat \<times> (nat \<times> outcome) list"

definition view :: "('id, 'm) connection_scheme \<Rightarrow> 'id view" where
  "view s = (pending s, nextPromise s, settled (effects s))"

text \<open>
  The promises held by the entries of a pending map.
\<close>

definition promises_of :: "('id \<times> Pending) list \<Rightarrow> nat list" where
  "promises_of pd = map (\<lambda>kp. promise (snd kp)) pd"

text \<open>
  No promise is held twice; the promises of the map have been created and are not
  settled; every settled promise has been created.
\<close>

definition view_wf :: "'id view \<Rightarrow> bool" where
  "view_wf v =
     (case v of (pd, np, st) \<Rightarrow>
        distinct (promises_of pd)
      \<and> (\<forall>p \<in> set (promises_of pd). p < np \<and> p \<notin> fst ` set st)
      \<and> (\<forall>p \<in> fst ` set st. p < np))"

text \<open>
  The four ways in which one step of a connection changes this view: not at all; a
  request adds an entry with a new promise; a response removes an entry and settles
  its promise; a close, an error or a teardown rejects every entry and clears the map.
\<close>

inductive pending_step :: "'id view \<Rightarrow> 'id view \<Rightarrow> bool" where
  same: "pending_step (pd, np, st) (pd, np, st)"
| added: "pending_step (pd, np, st) (AList.update k \<lparr>promise = np, awaiter = aw\<rparr> pd, Suc np, st)"
| answered: "map_of pd k = Some p \<Longrightarrow>
     pending_step (pd, np, st) (AList.delete k pd, np, st @ [(promise p, out)])"
| flushed: "pending_step (pd, np, st)
     ([], np, st @ map (\<lambda>kp. (promise (snd kp), Rejected err)) pd)"

text \<open>
  The outcome that the \<open>message\<close> handler of the bridge gives to the promise of a
  response, and the one \<open>handleMessage\<close> of the gateway client gives.
\<close>

definition cdp_outcome :: "CdpMessage \<Rightarrow> outcome" where
  "cdp_outcome m =
     (case error_message (msg_error m) of
        Some msg \<Rightarrow> Rejected (ServerError msg)
      | None \<Rightarrow> Resolved (msg_result m))"

definition gw_outcome :: "ResponseFrame \<Rightarrow> outcome" where
  "gw_outcome r =
     (if ok r then Resolved (res_payload r)
      else Rejected (ServerError (res_message (res_error r))))"

text \<open>
  The awaiter of the request that an event issues, if it issues one: a call of \<open>send\<close>
  or \<open>request\<close> on an open socket, the health ping, and the handshake request that
  answers the first challenge.
\<close>

fun cdp_issues :: "CdpBridge \<Rightarrow> cdp_event \<Rightarrow> awaiter option" where
  "cdp_issues s (Send m ps) = (if ws s = Some OPEN then Some Caller else None)"
| "cdp_issues s Ping_timer =
     (if pingTimer s \<noteq> None \<and> ws s = Some OPEN then Some HealthPing else None)"
| "cdp_issues s _ = None"

fun gw_issues :: "GatewayClient \<Rightarrow> gw_event \<Rightarrow> awaiter option" where
  "gw_issues s (Request m ps) = (if ws s = Some OPEN then Some Caller else None)"
| "gw_issues s (Frame (Some (EventMsg evt))) =
     (if event evt = ''connect.challenge'' \<and> challenge_nonce (payload evt) \<noteq> None
         \<and> \<not> connectSent s \<and> ws s = Some OPEN
      then Some Handshake else None)"
| "gw_issues s _ = None"

text \<open>
  The events that leave the request with correlation id \<open>i\<close> pending: every event
  but a response with this id and a close, an error or a teardown of the connection.
  For the gateway client the UUID drawn during the event is not \<open>i\<close> again.
\<close>

fun cdp_keeps :: "int \<Rightarrow> cdp_event \<Rightarrow> bool" where
  "cdp_keeps i (Message (Some m)) = (msg_id m \<noteq> Some i)"
| "cdp_keeps i Close = False"
| "cdp_keeps i (Error err) = False"
| "cdp_keeps i Disconnect = False"
| "cdp_keeps i _ = True"

fun gw_keeps :: "string \<Rightarrow> gw_event \<times> int \<times> string \<Rightarrow> bool" where
  "gw_keeps i (Frame (Some (ResMsg r)), now, uuid) = (res_id r \<noteq> i \<and> uuid \<noteq> i)"
| "gw_keeps i (Closed c r, now, uuid) = False"
| "gw_keeps i (Stop, now, uuid) = False"
| "gw_keeps i (ev, now, uuid) = (uuid \<noteq> i)"

text \<open>
  The keys of the map are distinct, and every promise created is held by the map or
  settled.
\<close>

definition accounted :: "'id view \<Rightarrow> bool" where
  "accounted v =
     (case v of (pd, np, st) \<Rightarrow>
        distinct (map fst pd)
      \<and> (\<forall>p<np. p \<in> set (promises_of pd) \<or> p \<in> fst ` set st))"

text \<open>
  Along this run no request of the gateway client draws a UUID that is the key of a
  pending request at that time.
\<close>

fun gw_fresh_uuids :: "GatewayClient \<Rightarrow> (gw_event \<times> int \<times> string) list \<Rightarrow> bool" where
  "gw_fresh_uuids s [] = True"
| "gw_fresh_uuids s (x # xs) =
     ((gw_issues s (fst x) = None \<or> map_of (pending s) (snd (snd x)) = None)
      \<and> gw_fresh_uuids (gw_step s x) xs)"

text \<open>
  The settlements of promise \<open>p\<close> among those made so far.
\<close>

definition history_of :: "nat \<Rightarrow> (nat \<times> outcome) list \<Rightarrow> (nat \<times> outcome) list" where
  "history_of p st = filter (\<lambda>x. fst x = p) st"

section \<open>Concrete states and inputs\<close>

text \<open>The examples at which the theorems are instantiated below.\<close>

definition frame_a :: EventFrame where
  "frame_a = \<lparr>event = ''tick'', payload = JNull, seq = Some 1\<rparr>"

definition frame_b :: EventFrame where
  "frame_b = \<lparr>event = ''chat'', payload = JStr ''hello'', seq = Some 2\<rparr>"

definition frame_c :: EventFrame where
  "frame_c = \<lparr>event = ''tick'', payload = JNull, seq = Some 3\<rparr>"

definition three_pushes :: "(EventFrame \<times> int) list" where
  "three_pushes = [(frame_a, 10), (frame_b, 20), (frame_c, 30)]"

definition router_with_sink :: "nat ResponseRouter" where
  "router_with_sink = onResponse new_ResponseRouter 7"

definition router_no_sink :: "nat ResponseRouter" where
  "router_no_sink =
     trackInjection (trackInjection new_ResponseRouter ''telegram'' ''alice'' 0 0)
       ''slack'' ''bob'' 1 1"

definition gw_fresh :: GatewayClient where
  "gw_fresh = new_GatewayClient None None ''linux''"

definition gw_open_no_handshake :: GatewayClient where
  "gw_open_no_handshake = gw_run gw_fresh [(Start, 0, ''u0''), (Opened, 5, ''u1'')]"

definition challenge_frame :: gw_frame where
  "challenge_frame =
     EventMsg \<lparr>event = ''connect.challenge'', payload = JObj [(''nonce'', JStr ''abc'')],
               seq = None\<rparr>"

definition tick_frame :: gw_frame where
  "tick_frame = EventMsg \<lparr>event = ''tick'', payload = JUndefined, seq = Some 4\<rparr>"

definition hello_500 :: json where
  "hello_500 = JObj [(''protocol'', JNum 1),
                     (''policy'', JObj [(''maxPayload'', JNum 1048576),
                                        (''tickIntervalMs'', JNum 500)])]"

definition hello_frame :: gw_frame where
  "hello_frame = ResMsg \<lparr>res_id = ''u2'', ok = True, res_payload = hello_500, res_error = None\<rparr>"

text \<open>A client whose handshake has been answered with a tick interval of 500 ms.\<close>

definition gw_after_hello :: GatewayClient where
  "gw_after_hello =
     gw_run gw_fresh
       [(Start, 0, ''u0''), (Opened, 5, ''u1''), (Frame (Some challenge_frame), 6, ''u2''),
        (Frame (Some hello_frame), 8, ''u3'')]"

definition page_without_url :: CdpTarget where
  "page_without_url =
     \<lparr>t_id = ''A1'', t_type = ''page'', t_title = ''Claude'', t_url = ''app://claude'',
      webSocketDebuggerUrl = None\<rparr>"

definition worker_target :: CdpTarget where
  "worker_target =
     \<lparr>t_id = ''B2'', t_type = ''service_worker'', t_title = ''worker'', t_url = ''app://worker'',
      webSocketDebuggerUrl = Some ''ws://127.0.0.1:9222/devtools/page/B2''\<rparr>"

definition page_target :: CdpTarget where
  "page_target =
     \<lparr>t_id = ''C3'', t_type = ''page'', t_title = ''Claude'', t_url = ''app://claude'',
      webSocketDebuggerUrl = Some ''ws://127.0.0.1:9222/devtools/page/C3''\<rparr>"

definition page_address :: URL where
  "page_address =
     \<lparr>protocol = ''ws:'', hostname = ''127.0.0.1'', port = Some 9222,
      pathname = ''/devtools/page/C3''\<rparr>"

definition parse_example :: "string \<Rightarrow> URL option" where
  "parse_example u =
     (if u = ''ws://127.0.0.1:9222/devtools/page/C3'' then Some page_address else None)"

definition bridge_open :: CdpBridge where
  "bridge_open = cdp_run new_CdpBridge [Connect_begin ''127.0.0.1'' 19222, Connect_opened]"

definition seven_closes :: "cdp_event list" where
  "seven_closes = [Close, Close, Reconnect_timer, Close, Close, Close, Close, Close]"

definition gw_two_closes :: "(gw_event \<times> int \<times> string) list" where
  "gw_two_closes =
     [(Closed 1006 ''gone'', 100, ''a''), (Reconnect_due, 1100, ''b''),
      (Opened, 1150, ''c''), (Closed 1006 ''refused'', 1200, ''d'')]"

definition cdp_history :: "cdp_event list" where
  "cdp_history =
     [Connect_begin ''127.0.0.1'' 19222, Connect_opened,
      Send ''Runtime.enable'' JUndefined, Send ''Runtime.evaluate'' (JObj [(''expression'', JStr ''1'')])]"

definition late_reply :: CdpMessage where
  "late_reply = \<lparr>msg_id = Some 1, msg_method = None, msg_params = None,
                  msg_result = JObj [], msg_error = None\<rparr>"

definition cdp_after_close :: "cdp_event list" where
  "cdp_after_close = [Reconnect_timer, Connect_opened, Send ''Runtime.enable'' JUndefined]"

definition reply_1 :: CdpMessage where
  "reply_1 = \<lparr>msg_id = Some 1, msg_method = None, msg_params = None,
               msg_result = JObj [(''value'', JStr ''one'')], msg_error = None\<rparr>"

definition reply_2 :: CdpMessage where
  "reply_2 = \<lparr>msg_id = Some 2, msg_method = None, msg_params = None,
               msg_result = JObj [(''value'', JStr ''two'')], msg_error = None\<rparr>"

definition error_reply_empty_message :: CdpMessage where
  "error_reply_empty_message =
     \<lparr>msg_id = Some 1, msg_method = None, msg_params = None, msg_result = JUndefined,
      msg_error = Some \<lparr>message = Some ''''\<rparr>\<rparr>"

definition error_reply_no_message :: CdpMessage where
  "error_reply_no_message =
     \<lparr>msg_id = Some 1, msg_method = None, msg_params = None, msg_result = JUndefined,
      msg_error = Some \<lparr>message = None\<rparr>\<rparr>"

definition error_reply_with_message :: CdpMessage where
  "error_reply_with_message =
     \<lparr>msg_id = Some 1, msg_method = None, msg_params = None, msg_result = JUndefined,
      msg_error = Some \<lparr>message = Some ''No node with given id''\<rparr>\<rparr>"

definition other_call_answered_first :: "cdp_event list" where
  "other_call_answered_first = [Send ''Runtime.enable'' JUndefined, Message (Some reply_2)]"

definition gw_denied :: ResponseFrame where
  "gw_denied = \<lparr>res_id = ''r1'', ok = False, res_payload = JUndefined,
                 res_error = Some \<lparr>message = Some ''denied''\<rparr>\<rparr>"

definition gw_error_no_message :: ResponseFrame where
  "gw_error_no_message = \<lparr>res_id = ''r1'', ok = False, res_payload = JUndefined,
                           res_error = Some \<lparr>message = None\<rparr>\<rparr>"

definition gw_other_ok :: ResponseFrame where
  "gw_other_ok = \<lparr>res_id = ''r2'', ok = True, res_payload = JStr ''fine'', res_error = None\<rparr>"

definition gw_other_call_answered_first :: "(gw_event \<times> int \<times> string) list" where
  "gw_other_call_answered_first =
     [(Request ''channels.status'' (JObj []), 7, ''r2''),
      (Frame (Some (ResMsg gw_other_ok)), 8, ''r3'')]"

definition gw_history :: "(gw_event \<times> int \<times> string) list" where
  "gw_history = [(Start, 0, ''u0''), (Opened, 5, ''u1''), (Request ''send'' JNull, 6, ''r1'')]"

section \<open>Event ring buffer: proofs\<close>

lemma shift_tl: "shift xs = tl xs"
  by (cases xs) (simp_all add: shift_def)

lemma capacity_push: "capacity (push b fr now) = capacity b"
  by (simp add: push_def Let_def)

lemma buf_push:
  "buf (push b fr now) =
     (if int (length (buf b)) \<ge> capacity b then tl (buf b) else buf b) @ [stamped (fr, now)]"
  by (simp add: push_def Let_def shift_tl stamped_def)

lemma capacity_pushes: "capacity (pushes b es) = capacity b"
  by (induction b es rule: pushes.induct) (simp_all add: capacity_push)

text \<open>
  A buffer that is not over its capacity holds, after any run of pushes, the last
  \<open>capacity\<close> of its old entries followed by the pushed ones.
\<close>

lemma buf_pushes:
  "1 \<le> capacity b \<Longrightarrow> int (length (buf b)) \<le> capacity b \<Longrightarrow>
   buf (pushes b es) =
     drop (length (buf b) + length es - nat (capacity b)) (buf b @ map stamped es)"
proof (induction b es rule: pushes.induct)
  case (1 b)
  then show ?case by simp
next
  case (2 b fr now es)
  let ?b = "push b fr now"
  have cap: "capacity ?b = capacity b" by (rule capacity_push)
  show ?case
  proof (cases "int (length (buf b)) \<ge> capacity b")
    case True
    with 2 have len: "length (buf b) = nat (capacity b)" by linarith
    with "2.prems" have ne: "buf b \<noteq> []" by auto
    have b': "buf ?b = tl (buf b) @ [stamped (fr, now)]" using True by (simp add: buf_push)
    have pos: "0 < length (buf b)" using ne by simp
    have len': "length (buf ?b) = nat (capacity b)" using b' len pos by simp
    have "buf (pushes ?b es) =
        drop (length (buf ?b) + length es - nat (capacity ?b)) (buf ?b @ map stamped es)"
      using "2.IH" "2.prems" cap len' by simp
    also have "\<dots> = drop (length es) (tl (buf b) @ stamped (fr, now) # map stamped es)"
      using len' cap b' by simp
    also have "\<dots> = drop (Suc (length es)) (buf b @ stamped (fr, now) # map stamped es)"
      using ne by (cases "buf b") simp_all
    finally show ?thesis using len by simp
  next
    case False
    have b': "buf ?b = buf b @ [stamped (fr, now)]" using False by (simp add: buf_push)
    have "int (length (buf ?b)) \<le> capacity ?b" using False b' cap by simp
    then have "buf (pushes ?b es) =
        drop (length (buf ?b) + length es - nat (capacity ?b)) (buf ?b @ map stamped es)"
      using "2.IH" "2.prems" cap by simp
    then show ?thesis using b' cap by simp
  qed
qed

lemma query_no_filter:
  "query b None = buf b"
  "query b (Some \<lparr>eventType = None, since = None, limit = None\<rparr>) = buf b"
  by (simp_all add: query_def)

text \<open>
  C6. With a capacity \<open>C \<ge> 1\<close>, after \<open>C + k\<close> pushes into a new buffer the size
  is \<open>C\<close> and \<open>query\<close> without filters (no options, or options with no field set)
  returns the last \<open>C\<close> pushed events, oldest first; and a push into a buffer that
  holds \<open>C\<close> entries removes the oldest entry only and appends the new one.
\<close>

theorem eventbuffer_keeps_last_C:
  assumes "1 \<le> C" and "length es = nat C + k"
  shows "int (size_buf (pushes (new_EventBuffer C) es)) = C
       \<and> query (pushes (new_EventBuffer C) es) None = drop k (map stamped es)
       \<and> query (pushes (new_EventBuffer C) es)
             (Some \<lparr>eventType = None, since = None, limit = None\<rparr>) = drop k (map stamped es)
       \<and> (\<forall>b fr now. capacity b = C \<and> int (length (buf b)) = C \<longrightarrow>
             (\<exists>oldest kept. buf b = oldest # kept
                \<and> buf (push b fr now) = kept @ [stamped (fr, now)]))"
proof -
  let ?b = "new_EventBuffer C"
  have "buf (pushes ?b es) =
      drop (length (buf ?b) + length es - nat (capacity ?b)) (buf ?b @ map stamped es)"
    using assms by (intro buf_pushes) (simp_all add: new_EventBuffer_def)
  then have eq: "buf (pushes ?b es) = drop k (map stamped es)"
    using assms by (simp add: new_EventBuffer_def)
  have 1: "int (size_buf (pushes ?b es)) = C"
    using eq assms by (simp add: size_buf_def)
  have 2: "query (pushes ?b es) None = drop k (map stamped es)"
    using eq by (simp add: query_no_filter)
  have 3: "query (pushes ?b es) (Some \<lparr>eventType = None, since = None, limit = None\<rparr>)
      = drop k (map stamped es)"
    using eq by (simp add: query_no_filter)
  have 4: "\<exists>oldest kept. buf b = oldest # kept \<and> buf (push b fr now) = kept @ [stamped (fr, now)]"
    if "capacity b = C \<and> int (length (buf b)) = C" for b fr now
  proof -
    from that assms have "buf b \<noteq> []" by auto
    then obtain oldest kept where "buf b = oldest # kept" by (cases "buf b") auto
    then show ?thesis using that by (simp add: buf_push)
  qed
  from 1 2 3 4 show ?thesis by blast
qed

theorem eventbuffer_keeps_last_C_witness:
  "(1::int) \<le> 2 \<and> length three_pushes = nat 2 + 1
   \<and> int (size_buf (pushes (new_EventBuffer 2) three_pushes)) = 2
   \<and> query (pushes (new_EventBuffer 2) three_pushes) None
       = [\<lparr>ts = 20, frame = frame_b\<rparr>, \<lparr>ts = 30, frame = frame_c\<rparr>]
   \<and> capacity (pushes (new_EventBuffer 2) [(frame_a, 10), (frame_b, 20)]) = 2
   \<and> int (length (buf (pushes (new_EventBuffer 2) [(frame_a, 10), (frame_b, 20)]))) = 2
   \<and> (\<exists>oldest kept.
         buf (pushes (new_EventBuffer 2) [(frame_a, 10), (frame_b, 20)]) = oldest # kept
         \<and> buf (push (pushes (new_EventBuffer 2) [(frame_a, 10), (frame_b, 20)]) frame_c 30)
             = kept @ [stamped (frame_c, 30)])"
proof -
  have h1: "(1::int) \<le> 2" by simp
  have h2: "length three_pushes = nat 2 + 1" by (simp add: three_pushes_def)
  let ?b2 = "pushes (new_EventBuffer 2) [(frame_a, 10), (frame_b, 20)]"
  have h3: "capacity ?b2 = 2 \<and> int (length (buf ?b2)) = 2"
    by (simp add: new_EventBuffer_def push_def)
  note inst = eventbuffer_keeps_last_C [OF h1 h2]
  from inst have "int (size_buf (pushes (new_EventBuffer 2) three_pushes)) = 2" by blast
  moreover from inst have "query (pushes (new_EventBuffer 2) three_pushes) None
       = [\<lparr>ts = 20, frame = frame_b\<rparr>, \<lparr>ts = 30, frame = frame_c\<rparr>]"
    by (simp add: three_pushes_def stamped_def)
  moreover from inst h3 have "\<exists>oldest kept. buf ?b2 = oldest # kept
         \<and> buf (push ?b2 frame_c 30) = kept @ [stamped (frame_c, 30)]"
    by blast
  ultimately show ?thesis using h1 h2 h3 by blast
qed

section \<open>Response correlator: proofs\<close>

lemma pruneStale_loop_age:
  "pruneStale_loop (now - horizon) ms = dropWhile (\<lambda>m. now - injectedAt m > horizon) ms"
  by (induction ms) auto

lemma pending_routeResponse:
  "pendingMessages (fst (routeResponse r text now)) =
     tl (dropWhile (\<lambda>m. now - injectedAt m > CONTEXT_TIMEOUT_MS) (pendingMessages r))"
proof -
  define live where
    "live = dropWhile (\<lambda>m. now - injectedAt m > CONTEXT_TIMEOUT_MS) (pendingMessages r)"
  have "pendingMessages (pruneStale r now) = live"
    by (simp add: pruneStale_def pruneStale_loop_age live_def)
  moreover have "responseCallback (pruneStale r now) = responseCallback r"
    by (simp add: pruneStale_def)
  ultimately show ?thesis
    unfolding live_def [symmetric]
    by (cases live; cases "responseCallback r") (simp_all add: routeResponse_def Let_def)
qed

lemma sink_routeResponse:
  "snd (routeResponse r text now) =
     (case dropWhile (\<lambda>m. now - injectedAt m > CONTEXT_TIMEOUT_MS) (pendingMessages r) of
        [] \<Rightarrow> None
      | p # _ \<Rightarrow> map_option (\<lambda>cb. (cb, channelId p, sender p, text)) (responseCallback r))"
proof -
  define live where
    "live = dropWhile (\<lambda>m. now - injectedAt m > CONTEXT_TIMEOUT_MS) (pendingMessages r)"
  have "pendingMessages (pruneStale r now) = live"
    by (simp add: pruneStale_def pruneStale_loop_age live_def)
  moreover have "responseCallback (pruneStale r now) = responseCallback r"
    by (simp add: pruneStale_def)
  ultimately show ?thesis
    unfolding live_def [symmetric]
    by (cases live; cases "responseCallback r") (simp_all add: routeResponse_def Let_def)
qed

lemma callback_routeResponse:
  "responseCallback (fst (routeResponse r text now)) = responseCallback r"
  by (simp add: routeResponse_def pruneStale_def Let_def split: list.splits option.splits)

text \<open>
  C5. Let the sink be registered and the queue empty, let A be tracked at time 0 and
  B at time 1. If A is at most 5 minutes old at the first notification and B at the
  second, the first notification calls the sink with the channel and sender of A and
  the second with those of B. A notification that arrives when A alone is pending and
  older than 5 minutes calls no sink and leaves the queue empty. In general a
  notification first drops from the front every record older than 5 minutes and then
  removes the first record left.
\<close>

theorem correlator_fifo_with_eviction:
  fixes r0 :: "'cb ResponseRouter"
  assumes "responseCallback r0 = Some cb" and "pendingMessages r0 = []"
  shows "(t1 - 0 \<le> CONTEXT_TIMEOUT_MS \<and> t2 - 1 \<le> CONTEXT_TIMEOUT_MS \<longrightarrow>
            snd (routeResponse
                   (trackInjection (trackInjection r0 chA fromA 0 0) chB fromB 1 1) text1 t1)
              = Some (cb, chA, fromA, text1)
          \<and> snd (routeResponse
                   (fst (routeResponse
                      (trackInjection (trackInjection r0 chA fromA 0 0) chB fromB 1 1) text1 t1))
                   text2 t2)
              = Some (cb, chB, fromB, text2))
       \<and> (t - 0 > CONTEXT_TIMEOUT_MS \<longrightarrow>
            snd (routeResponse (trackInjection r0 chA fromA 0 0) text t) = None
          \<and> pendingMessages (fst (routeResponse (trackInjection r0 chA fromA 0 0) text t)) = [])
       \<and> pendingMessages (fst (routeResponse r text now)) =
           tl (dropWhile (\<lambda>m. now - injectedAt m > CONTEXT_TIMEOUT_MS) (pendingMessages r))"
proof -
  let ?rA = "trackInjection r0 chA fromA 0 0"
  let ?rB = "trackInjection ?rA chB fromB 1 1"
  have pA: "pendingMessages ?rA = [\<lparr>channelId = chA, sender = fromA, injectedAt = 0\<rparr>]"
    using assms by (simp add: trackInjection_def pruneStale_def CONTEXT_TIMEOUT_MS_def)
  have pB: "pendingMessages ?rB = [\<lparr>channelId = chA, sender = fromA, injectedAt = 0\<rparr>,
       \<lparr>channelId = chB, sender = fromB, injectedAt = 1\<rparr>]"
    using pA by (simp add: trackInjection_def pruneStale_def CONTEXT_TIMEOUT_MS_def)
  have cA: "responseCallback ?rA = Some cb"
    using assms by (simp add: trackInjection_def pruneStale_def)
  have cB: "responseCallback ?rB = Some cb"
    using cA by (simp add: trackInjection_def pruneStale_def)
  have 1: "snd (routeResponse ?rB text1 t1) = Some (cb, chA, fromA, text1) \<and>
        snd (routeResponse (fst (routeResponse ?rB text1 t1)) text2 t2)
          = Some (cb, chB, fromB, text2)"
    if "t1 - 0 \<le> CONTEXT_TIMEOUT_MS \<and> t2 - 1 \<le> CONTEXT_TIMEOUT_MS"
    using that pB cB
    by (simp add: sink_routeResponse pending_routeResponse callback_routeResponse)
  have 2: "snd (routeResponse ?rA text t) = None
      \<and> pendingMessages (fst (routeResponse ?rA text t)) = []"
    if "t - 0 > CONTEXT_TIMEOUT_MS"
    using that pA by (simp add: sink_routeResponse pending_routeResponse)
  from 1 2 show ?thesis by (simp add: pending_routeResponse)
qed

theorem correlator_fifo_with_eviction_witness:
  "responseCallback router_with_sink = Some 7 \<and> pendingMessages router_with_sink = []
   \<and> (1000::int) - 0 \<le> CONTEXT_TIMEOUT_MS \<and> (2000::int) - 1 \<le> CONTEXT_TIMEOUT_MS
   \<and> snd (routeResponse
            (trackInjection (trackInjection router_with_sink ''telegram'' ''alice'' 0 0)
               ''slack'' ''bob'' 1 1) ''first'' 1000)
       = Some (7, ''telegram'', ''alice'', ''first'')
   \<and> snd (routeResponse
            (fst (routeResponse
               (trackInjection (trackInjection router_with_sink ''telegram'' ''alice'' 0 0)
                  ''slack'' ''bob'' 1 1) ''first'' 1000))
            ''second'' 2000)
       = Some (7, ''slack'', ''bob'', ''second'')
   \<and> (300001::int) - 0 > CONTEXT_TIMEOUT_MS
   \<and> snd (routeResponse (trackInjection router_with_sink ''telegram'' ''alice'' 0 0)
            ''late'' 300001) = None"
proof -
  have h1: "responseCallback router_with_sink = Some 7"
    by (simp add: router_with_sink_def onResponse_def new_ResponseRouter_def)
  have h2: "pendingMessages router_with_sink = []"
    by (simp add: router_with_sink_def onResponse_def new_ResponseRouter_def)
  have h3: "(1000::int) - 0 \<le> CONTEXT_TIMEOUT_MS \<and> (2000::int) - 1 \<le> CONTEXT_TIMEOUT_MS"
    by (simp add: CONTEXT_TIMEOUT_MS_def)
  have h4: "(300001::int) - 0 > CONTEXT_TIMEOUT_MS"
    by (simp add: CONTEXT_TIMEOUT_MS_def)
  from correlator_fifo_with_eviction
         [OF h1 h2, of 1000 2000 "''telegram''" "''alice''" "''slack''" "''bob''" "''first''"
            "''second''" 300001 "''late''"]
       h1 h2 h3 h4
  show ?thesis by blast
qed

text \<open>
  C9 as stated fails: a notification removes every stale record and then one more.
  Here two records are pending, both stale at time 400000; the one notification
  removes both.
\<close>

theorem notification_removes_two_records:
  "length (pendingMessages router_no_sink) = 2
   \<and> length (pendingMessages (fst (routeResponse router_no_sink ''hi'' 400000))) = 0
   \<and> \<not> (length (pendingMessages router_no_sink)
          - length (pendingMessages (fst (routeResponse router_no_sink ''hi'' 400000))) \<le> 1)"
  by (simp add: router_no_sink_def new_ResponseRouter_def trackInjection_def routeResponse_def
      pruneStale_def CONTEXT_TIMEOUT_MS_def)

text \<open>
  C9, amended. Without a registered sink a notification calls nothing, and the queue
  it leaves is the same with or without a sink: the stale records are dropped from the
  front and then the oldest record left is removed. So beyond the stale records a
  notification removes at most one record, and at most one record in all when no
  record is stale.
\<close>

theorem notification_consumes_record_without_sink:
  fixes r :: "'cb ResponseRouter"
  shows "(responseCallback r = None \<longrightarrow> snd (routeResponse r text now) = None)
       \<and> pendingMessages (fst (routeResponse r text now))
           = tl (dropWhile (\<lambda>m. now - injectedAt m > CONTEXT_TIMEOUT_MS) (pendingMessages r))
       \<and> pendingMessages (fst (routeResponse (r\<lparr>responseCallback := c\<rparr>) text now))
           = pendingMessages (fst (routeResponse r text now))
       \<and> length (dropWhile (\<lambda>m. now - injectedAt m > CONTEXT_TIMEOUT_MS) (pendingMessages r))
           - length (pendingMessages (fst (routeResponse r text now))) \<le> 1
       \<and> ((\<forall>m \<in> set (pendingMessages r). now - injectedAt m \<le> CONTEXT_TIMEOUT_MS) \<longrightarrow>
            length (pendingMessages r)
              - length (pendingMessages (fst (routeResponse r text now))) \<le> 1)"
proof -
  define live where
    "live = dropWhile (\<lambda>m. now - injectedAt m > CONTEXT_TIMEOUT_MS) (pendingMessages r)"
  have 1: "responseCallback r = None \<longrightarrow> snd (routeResponse r text now) = None"
    by (simp add: sink_routeResponse split: list.splits)
  have 2: "pendingMessages (fst (routeResponse r text now)) = tl live"
    by (simp add: pending_routeResponse live_def)
  have 3: "pendingMessages (fst (routeResponse (r\<lparr>responseCallback := c\<rparr>) text now)) = tl live"
    by (simp add: pending_routeResponse live_def)
  have 4: "length live - length (pendingMessages (fst (routeResponse r text now))) \<le> 1"
    by (simp add: 2)
  have 5: "length (pendingMessages r)
      - length (pendingMessages (fst (routeResponse r text now))) \<le> 1"
    if "\<forall>m \<in> set (pendingMessages r). now - injectedAt m \<le> CONTEXT_TIMEOUT_MS"
  proof -
    have "live = pendingMessages r"
      unfolding live_def using that by (cases "pendingMessages r") auto
    then show ?thesis by (simp add: 2)
  qed
  from 1 2 3 4 5 show ?thesis unfolding live_def by simp
qed

theorem notification_consumes_record_without_sink_witness:
  "responseCallback router_no_sink = None
   \<and> snd (routeResponse router_no_sink ''hi'' 400001) = None
   \<and> pendingMessages (fst (routeResponse router_no_sink ''hi'' 400001)) = []
   \<and> list_all (\<lambda>m. 300000 - injectedAt m \<le> CONTEXT_TIMEOUT_MS) (pendingMessages router_no_sink)
   \<and> length (pendingMessages router_no_sink)
       - length (pendingMessages (fst (routeResponse router_no_sink ''hi'' 300000))) \<le> 1"
proof -
  have p: "pendingMessages router_no_sink =
      [\<lparr>channelId = ''telegram'', sender = ''alice'', injectedAt = 0\<rparr>,
       \<lparr>channelId = ''slack'', sender = ''bob'', injectedAt = 1\<rparr>]"
    by (simp add: router_no_sink_def new_ResponseRouter_def trackInjection_def pruneStale_def
        CONTEXT_TIMEOUT_MS_def)
  have h1: "responseCallback router_no_sink = None"
    by (simp add: router_no_sink_def new_ResponseRouter_def trackInjection_def pruneStale_def)
  have h2: "\<forall>m \<in> set (pendingMessages router_no_sink). 300000 - injectedAt m \<le> CONTEXT_TIMEOUT_MS"
    by (simp add: p CONTEXT_TIMEOUT_MS_def)
  from notification_consumes_record_without_sink [of router_no_sink "''hi''" 400001] h1
  have a: "snd (routeResponse router_no_sink ''hi'' 400001) = None
      \<and> pendingMessages (fst (routeResponse router_no_sink ''hi'' 400001)) = []"
    by (simp add: p CONTEXT_TIMEOUT_MS_def)
  from notification_consumes_record_without_sink [of router_no_sink "''hi''" 300000] h2
  have b: "length (pendingMessages router_no_sink)
       - length (pendingMessages (fst (routeResponse router_no_sink ''hi'' 300000))) \<le> 1"
    by blast
  from h2 have c: "list_all (\<lambda>m. 300000 - injectedAt m \<le> CONTEXT_TIMEOUT_MS)
      (pendingMessages router_no_sink)"
    by (simp add: list_all_iff)
  from h1 a b c show ?thesis by blast
qed

section \<open>Gateway connection: requests and the watchdog\<close>

lemmas gw_eval = gw_run_def gw_step_def gw_drain_def start_def stop_def request_def
  sendConnect_def handleMessage_def gw_on_close_def gw_on_error_def gw_on_open_def
  gw_scheduleReconnect_def flushPendingErrors_def clearTickTimer_def startTickWatch_def
  tick_watch_def tick_timer_def then_hello_def catch_connect_def hello_tickIntervalMs_def
  challenge_nonce_def res_message_def connect_params_def new_GatewayClient_def
  emit_def settle_def reject_all_def close_socket_def gw_isConnected_def PROTOCOL_VERSION_def

lemma gw_open_no_handshake_eq:
  "gw_open_no_handshake =
     \<lparr>ws = Some OPEN, pending = [], closed = False, backoffMs = 1000,
      nextPromise = 0, jobs = [],
      effects = [NewWebSocket (UrlString ''ws://127.0.0.1:18789'')],
      url = None, token = None, platform = ''linux'',
      connectNonce = None, connectSent = False, lastTick = None,
      tickIntervalMs = 30000, tickTimer = None\<rparr>"
  by (simp add: gw_open_no_handshake_def gw_fresh_def gw_eval)

text \<open>
  C2 as stated fails: \<open>request\<close> tests the socket only. On a client whose socket is
  open and whose handshake has not begun, a request is sent and queued.
\<close>

theorem request_before_handshake_is_sent:
  "\<not> gw_isConnected gw_open_no_handshake
   \<and> snd (request gw_open_no_handshake Caller ''send'' JNull ''u2'') = Inr 0
   \<and> snd (request gw_open_no_handshake Caller ''send'' JNull ''u2'') \<noteq> Inl GatewayNotConnected
   \<and> effects (fst (request gw_open_no_handshake Caller ''send'' JNull ''u2''))
       = effects gw_open_no_handshake @ [WsSend ''u2'' ''send'' JNull]
   \<and> pending (fst (request gw_open_no_handshake Caller ''send'' JNull ''u2''))
       = [(''u2'', \<lparr>promise = 0, awaiter = Caller\<rparr>)]"
  by (simp add: gw_open_no_handshake_eq gw_isConnected_def request_def emit_def)

text \<open>
  C2, amended. A request made while the socket is absent or not open fails at once
  with the not-connected error and leaves the client as it was: no frame is sent,
  nothing is queued. A request made while the socket is open is sent and queued,
  whether or not the handshake has been sent; the handshake's own \<open>connect\<close> request
  takes this path.
\<close>

theorem request_requires_open_socket:
  "(ws s \<noteq> Some OPEN \<longrightarrow> request s aw method params uuid = (s, Inl GatewayNotConnected))
   \<and> (ws s = Some OPEN \<longrightarrow>
        snd (request s aw method params uuid) = Inr (nextPromise s)
      \<and> effects (fst (request s aw method params uuid)) = effects s @ [WsSend uuid method params]
      \<and> map_of (pending (fst (request s aw method params uuid))) uuid
          = Some \<lparr>promise = nextPromise s, awaiter = aw\<rparr>
      \<and> connectSent (fst (request s aw method params uuid)) = connectSent s)"
  by (simp add: request_def emit_def Let_def update_conv')

theorem request_requires_open_socket_witness:
  "ws gw_fresh \<noteq> Some OPEN
   \<and> request gw_fresh Caller ''send'' JNull ''u2'' = (gw_fresh, Inl GatewayNotConnected)
   \<and> ws gw_open_no_handshake = Some OPEN
   \<and> snd (request gw_open_no_handshake Caller ''send'' JNull ''u2'') = Inr 0"
proof -
  have h1: "ws gw_fresh \<noteq> Some OPEN" by (simp add: gw_fresh_def new_GatewayClient_def)
  have h2: "ws gw_open_no_handshake = Some OPEN" by (simp add: gw_open_no_handshake_eq)
  have n: "nextPromise gw_open_no_handshake = 0" by (simp add: gw_open_no_handshake_eq)
  from request_requires_open_socket [of gw_fresh Caller "''send''" JNull "''u2''"] h1
  have a: "request gw_fresh Caller ''send'' JNull ''u2'' = (gw_fresh, Inl GatewayNotConnected)"
    by blast
  from request_requires_open_socket [of gw_open_no_handshake Caller "''send''" JNull "''u2''"] h2 n
  have b: "snd (request gw_open_no_handshake Caller ''send'' JNull ''u2'') = Inr 0"
    by simp
  from h1 h2 a b show ?thesis by blast
qed

lemma gw_after_hello_eq:
  "gw_after_hello =
     \<lparr>ws = Some OPEN, pending = [], closed = False, backoffMs = 1000,
      nextPromise = 1, jobs = [],
      effects = [NewWebSocket (UrlString ''ws://127.0.0.1:18789''),
                 WsSend ''u2'' ''connect'' (connect_params gw_fresh),
                 Settle 0 (Resolved hello_500), SetInterval 1000, Notify (OnHelloOk hello_500)],
      url = None, token = None, platform = ''linux'',
      connectNonce = Some ''abc'', connectSent = True, lastTick = Some 8,
      tickIntervalMs = 500, tickTimer = Some 1000\<rparr>"
  by (simp add: gw_after_hello_def gw_fresh_def challenge_frame_def hello_frame_def hello_500_def
      gw_eval)

text \<open>
  C8 as stated fails: the timer does not run at the advertised interval when that is
  below one second. After a handshake reply advertising 500 ms the interval of the
  timer is 1000 ms.
\<close>

theorem watchdog_interval_is_not_advertised_interval:
  "hello_tickIntervalMs hello_500 = Some 500
   \<and> tickIntervalMs gw_after_hello = 500
   \<and> tickTimer gw_after_hello = Some 1000
   \<and> tickTimer gw_after_hello \<noteq> Some (tickIntervalMs gw_after_hello)"
  by (simp add: gw_after_hello_eq) (simp add: hello_tickIntervalMs_def hello_500_def)

lemma tickTimer_startTickWatch: "tickTimer (startTickWatch s) = Some (max (tickIntervalMs s) 1000)"
  by (simp add: startTickWatch_def emit_def Let_def split: option.splits)

lemma then_hello_fields:
  assumes "hello_tickIntervalMs helloOk = Some t"
  shows "tickIntervalMs (then_hello s helloOk now) = t"
    and "lastTick (then_hello s helloOk now) = Some now"
    and "tickTimer (then_hello s helloOk now) = Some (max t 1000)"
  using assms
  by (simp_all add: then_hello_def startTickWatch_def emit_def Let_def split: option.splits)

lemma tick_event_sets_lastTick:
  "event evt = ''tick'' \<Longrightarrow> lastTick (handleMessage s (Some (EventMsg evt)) now uuid) = Some now"
  by (simp add: handleMessage_def emit_def Let_def)

lemma tick_event_keeps:
  "event evt = ''tick'' \<Longrightarrow>
     handleMessage s (Some (EventMsg evt)) now uuid
       = s\<lparr>lastTick := Some now, effects := effects s @ [Notify (OnEvent evt)]\<rparr>"
  by (simp add: handleMessage_def emit_def Let_def)

text \<open>
  C8, amended. A \<open>tick\<close> event sets the last-tick time to the clock. A successful
  handshake reply sets the tick interval (the number at \<open>policy.tickIntervalMs\<close>, 30000
  when there is none), sets the last-tick time, and starts the timer with the larger of
  that interval and 1000 ms. When the running timer fires on a client that is not
  closed and whose last-tick time is set and not 0, and more than twice the tick
  interval has passed since, it closes the socket with code 4000. It leaves the client
  alone when at most twice the interval has passed, in particular after a tick that
  arrived within that bound, and when the client is closed.
\<close>

theorem gateway_liveness_watchdog:
  "(event evt = ''tick'' \<longrightarrow>
       lastTick (handleMessage s (Some (EventMsg evt)) t uuid) = Some t)
   \<and> (hello_tickIntervalMs helloOk = Some iv \<longrightarrow>
         tickIntervalMs (then_hello s helloOk t) = iv
       \<and> lastTick (then_hello s helloOk t) = Some t
       \<and> tickTimer (then_hello s helloOk t) = Some (max iv 1000))
   \<and> (js_prop helloOk ''policy'' = Some policy \<longrightarrow>
         hello_tickIntervalMs helloOk
           = Some (case js_prop policy ''tickIntervalMs'' of Some (JNum n) \<Rightarrow> n | _ \<Rightarrow> 30000))
   \<and> (tickTimer s \<noteq> None \<and> \<not> closed s \<and> lastTick s = Some t0 \<and> t0 \<noteq> 0
        \<and> now - t0 > 2 * tickIntervalMs s
      \<longrightarrow> tick_timer s now = close_socket s (Some (4000, ''tick timeout''))
        \<and> (ws s = Some OPEN \<longrightarrow>
              ws (tick_timer s now) = Some CLOSING
            \<and> effects (tick_timer s now)
                = effects s @ [WsCloseCall (Some (4000, ''tick timeout''))]))
   \<and> (lastTick s = Some t0 \<and> now - t0 \<le> 2 * tickIntervalMs s \<longrightarrow> tick_timer s now = s)
   \<and> (closed s \<longrightarrow> tick_timer s now = s)
   \<and> (event evt = ''tick'' \<and> now - t \<le> 2 * tickIntervalMs s \<longrightarrow>
        tick_timer (handleMessage s (Some (EventMsg evt)) t uuid) now
          = handleMessage s (Some (EventMsg evt)) t uuid)"
proof -
  have 1: "event evt = ''tick'' \<longrightarrow>
       lastTick (handleMessage s (Some (EventMsg evt)) t uuid) = Some t"
    by (simp add: tick_event_sets_lastTick)
  have 2: "hello_tickIntervalMs helloOk = Some iv \<longrightarrow>
         tickIntervalMs (then_hello s helloOk t) = iv
       \<and> lastTick (then_hello s helloOk t) = Some t
       \<and> tickTimer (then_hello s helloOk t) = Some (max iv 1000)"
    by (simp add: then_hello_fields)
  have 3: "js_prop helloOk ''policy'' = Some policy \<longrightarrow>
         hello_tickIntervalMs helloOk
           = Some (case js_prop policy ''tickIntervalMs'' of Some (JNum n) \<Rightarrow> n | _ \<Rightarrow> 30000)"
    by (simp add: hello_tickIntervalMs_def split: option.splits json.splits)
  have 4: "tickTimer s \<noteq> None \<and> \<not> closed s \<and> lastTick s = Some t0 \<and> t0 \<noteq> 0
        \<and> now - t0 > 2 * tickIntervalMs s
      \<longrightarrow> tick_timer s now = close_socket s (Some (4000, ''tick timeout''))
        \<and> (ws s = Some OPEN \<longrightarrow>
              ws (tick_timer s now) = Some CLOSING
            \<and> effects (tick_timer s now)
                = effects s @ [WsCloseCall (Some (4000, ''tick timeout''))])"
    by (auto simp: tick_timer_def tick_watch_def close_socket_def emit_def mult.commute
        split: option.splits)
  have 5: "lastTick s = Some t0 \<and> now - t0 \<le> 2 * tickIntervalMs s \<longrightarrow> tick_timer s now = s"
    by (auto simp: tick_timer_def tick_watch_def mult.commute split: option.splits)
  have 6: "closed s \<longrightarrow> tick_timer s now = s"
    by (simp add: tick_timer_def tick_watch_def split: option.splits)
  have 7: "event evt = ''tick'' \<and> now - t \<le> 2 * tickIntervalMs s \<longrightarrow>
        tick_timer (handleMessage s (Some (EventMsg evt)) t uuid) now
          = handleMessage s (Some (EventMsg evt)) t uuid"
    by (auto simp: tick_event_keeps tick_timer_def tick_watch_def mult.commute
        split: option.splits)
  from 1 2 3 4 5 6 7 show ?thesis by blast
qed

theorem gateway_liveness_watchdog_witness:
  "lastTick (handleMessage gw_after_hello (Some tick_frame) 700 ''u4'') = Some 700
   \<and> tickTimer gw_after_hello = Some 1000
   \<and> tick_timer gw_after_hello 1008 = gw_after_hello
   \<and> ws (tick_timer gw_after_hello 1009) = Some CLOSING
   \<and> effects (tick_timer gw_after_hello 1009)
       = effects gw_after_hello @ [WsCloseCall (Some (4000, ''tick timeout''))]
   \<and> tick_timer (handleMessage gw_after_hello (Some tick_frame) 700 ''u4'') 1009
       = handleMessage gw_after_hello (Some tick_frame) 700 ''u4''"
proof -
  have h1: "event \<lparr>event = ''tick'', payload = JUndefined, seq = Some 4\<rparr> = ''tick''" by simp
  note early = gateway_liveness_watchdog
      [where s = gw_after_hello and now = 1008 and ?t0.0 = 8 and t = 700 and uuid = "''u4''"
         and evt = "\<lparr>event = ''tick'', payload = JUndefined, seq = Some 4\<rparr>"
         and helloOk = hello_500 and iv = 500 and policy = JNull]
  note late = gateway_liveness_watchdog
      [where s = gw_after_hello and now = 1009 and ?t0.0 = 8 and t = 700 and uuid = "''u4''"
         and evt = "\<lparr>event = ''tick'', payload = JUndefined, seq = Some 4\<rparr>"
         and helloOk = hello_500 and iv = 500 and policy = JNull]
  have a: "lastTick (handleMessage gw_after_hello (Some tick_frame) 700 ''u4'') = Some 700"
    using early h1 unfolding tick_frame_def by blast
  have b: "tickTimer gw_after_hello = Some 1000" by (simp add: gw_after_hello_eq)
  have h2: "lastTick gw_after_hello = Some 8 \<and> 1008 - 8 \<le> 2 * tickIntervalMs gw_after_hello"
    by (simp add: gw_after_hello_eq)
  have c: "tick_timer gw_after_hello 1008 = gw_after_hello"
    using early h2 by blast
  have h3: "tickTimer gw_after_hello \<noteq> None \<and> \<not> closed gw_after_hello
      \<and> lastTick gw_after_hello = Some 8 \<and> (8::int) \<noteq> 0
      \<and> 1009 - 8 > 2 * tickIntervalMs gw_after_hello"
    by (simp add: gw_after_hello_eq)
  have h4: "ws gw_after_hello = Some OPEN" by (simp add: gw_after_hello_eq)
  have d: "ws (tick_timer gw_after_hello 1009) = Some CLOSING
   \<and> effects (tick_timer gw_after_hello 1009)
       = effects gw_after_hello @ [WsCloseCall (Some (4000, ''tick timeout''))]"
    using late h3 h4 by blast
  have h5: "1009 - 700 \<le> 2 * tickIntervalMs gw_after_hello" by (simp add: gw_after_hello_eq)
  have e: "tick_timer (handleMessage gw_after_hello (Some tick_frame) 700 ''u4'') 1009
       = handleMessage gw_after_hello (Some tick_frame) 700 ''u4''"
    using late h1 h5 unfolding tick_frame_def by blast
  from a b c d e show ?thesis by blast
qed

section \<open>Target control connection: choice of the target\<close>

lemma find_page_split:
  "targets = pre @ t # post \<Longrightarrow> t_type t = ''page'' \<Longrightarrow> \<forall>x \<in> set pre. t_type x \<noteq> ''page''
   \<Longrightarrow> find (\<lambda>t. t_type t = ''page'') targets = Some t"
  by (induction pre arbitrary: targets) auto

lemma find_page_none:
  "\<forall>x \<in> set targets. t_type x \<noteq> ''page'' \<Longrightarrow> find (\<lambda>t. t_type t = ''page'') targets = None"
  by (induction targets) auto

lemma select_target_first_page:
  "targets = pre @ t # post \<Longrightarrow> t_type t = ''page'' \<Longrightarrow> \<forall>x \<in> set pre. t_type x \<noteq> ''page''
   \<Longrightarrow> select_target targets = Some t"
  by (simp add: select_target_def find_page_split)

lemma select_target_fallback:
  "\<forall>x \<in> set (t # others). t_type x \<noteq> ''page'' \<Longrightarrow> select_target (t # others) = Some t"
  using find_page_none [of "t # others"] by (simp add: select_target_def)

lemma select_target_None: "select_target targets = None \<longleftrightarrow> targets = []"
  by (cases targets) (auto simp: select_target_def split: option.splits)

lemma connect_NoTarget_iff:
  "snd (connect s host port' (HttpResponse True status (Some targets)) parse_url dial) = Inl NoTarget
   \<longleftrightarrow> chosen_url targets = None"
  by (auto simp: connect_def discoverTargets_def chosen_url_def Let_def
      split: option.splits sum.splits)

lemma connect_success:
  assumes "chosen_url targets = Some u" "parse_url u = Some parsed"
    "dial (normalizeCdpWsUrl parsed host port') = None"
  shows "connect s host port' (HttpResponse True status (Some targets)) parse_url dial
     = (connect_opened (emit (connect_begin s host port')
          [NewWebSocket (UrlRecord (normalizeCdpWsUrl parsed host port'))]), Inr ())"
  using assms
  by (auto simp: connect_def discoverTargets_def chosen_url_def Let_def
      split: option.splits sum.splits if_splits)

lemma ws_connect_opened: "ws (connect_opened s) = Some OPEN"
  by (simp add: connect_opened_def startHealthPing_def stopHealthPing_def emit_def
      split: option.splits)

text \<open>
  C7 as stated fails: a list that is not empty can make \<open>connect\<close> fail with the
  discovery error. Here the first page target has no socket address; it is chosen,
  though the second entry has one, and \<open>connect\<close> throws.
\<close>

theorem connect_fails_on_page_without_address:
  "[page_without_url, worker_target] \<noteq> []
   \<and> select_target [page_without_url, worker_target] = Some page_without_url
   \<and> snd (connect new_CdpBridge ''127.0.0.1'' 9222
            (HttpResponse True 200 (Some [page_without_url, worker_target]))
            parse_example (\<lambda>u. None)) = Inl NoTarget
   \<and> ws (fst (connect new_CdpBridge ''127.0.0.1'' 9222
            (HttpResponse True 200 (Some [page_without_url, worker_target]))
            parse_example (\<lambda>u. None))) = None"
  by (simp add: connect_def discoverTargets_def select_target_def page_without_url_def
      worker_target_def connect_begin_def new_CdpBridge_def)

text \<open>
  C7, amended. \<open>connect\<close> chooses the first target of type \<open>page\<close>, or the first
  entry when there is none, and no target only for the empty list. Given a discovery
  answer with a list, it fails with the discovery error exactly when the list is empty
  or the chosen target has no socket address (none or the empty string). When the
  chosen target has an address that parses and the socket opens, \<open>connect\<close> succeeds,
  the socket it opened is the one at the normalised address of that target, and the
  bridge is open.
\<close>

theorem connect_target_selection:
  "(targets = pre @ t # post \<and> t_type t = ''page'' \<and> (\<forall>x \<in> set pre. t_type x \<noteq> ''page'')
      \<longrightarrow> select_target targets = Some t)
   \<and> ((\<forall>x \<in> set targets. t_type x \<noteq> ''page'') \<and> targets = t # others
      \<longrightarrow> select_target targets = Some t)
   \<and> (select_target targets = None \<longleftrightarrow> targets = [])
   \<and> (snd (connect s host port' (HttpResponse True status (Some targets)) parse_url dial)
         = Inl NoTarget
       \<longleftrightarrow> targets = []
           \<or> (\<exists>c. select_target targets = Some c
                \<and> (webSocketDebuggerUrl c = None \<or> webSocketDebuggerUrl c = Some [])))
   \<and> (select_target targets = Some c \<and> webSocketDebuggerUrl c = Some u \<and> u \<noteq> []
        \<and> parse_url u = Some parsed \<and> dial (normalizeCdpWsUrl parsed host port') = None
      \<longrightarrow> snd (connect s host port' (HttpResponse True status (Some targets)) parse_url dial)
            = Inr ()
        \<and> ws (fst (connect s host port' (HttpResponse True status (Some targets)) parse_url dial))
            = Some OPEN
        \<and> NewWebSocket (UrlRecord (normalizeCdpWsUrl parsed host port'))
            \<in> set (effects (fst (connect s host port' (HttpResponse True status (Some targets))
                                    parse_url dial))))"
proof -
  have 1: "targets = pre @ t # post \<and> t_type t = ''page'' \<and> (\<forall>x \<in> set pre. t_type x \<noteq> ''page'')
      \<longrightarrow> select_target targets = Some t"
    using select_target_first_page by blast
  have 2: "(\<forall>x \<in> set targets. t_type x \<noteq> ''page'') \<and> targets = t # others
      \<longrightarrow> select_target targets = Some t"
    using select_target_fallback by blast
  have 4: "snd (connect s host port' (HttpResponse True status (Some targets)) parse_url dial)
         = Inl NoTarget
       \<longleftrightarrow> targets = []
           \<or> (\<exists>c. select_target targets = Some c
                \<and> (webSocketDebuggerUrl c = None \<or> webSocketDebuggerUrl c = Some []))"
  proof (cases "select_target targets")
    case None
    then show ?thesis
      by (simp add: connect_NoTarget_iff chosen_url_def select_target_None [symmetric])
  next
    case (Some c)
    then have "targets \<noteq> []" using select_target_None [of targets] by auto
    with Some show ?thesis
      by (auto simp: connect_NoTarget_iff chosen_url_def split: option.splits if_splits)
  qed
  have 5: "snd (connect s host port' (HttpResponse True status (Some targets)) parse_url dial)
            = Inr ()
        \<and> ws (fst (connect s host port' (HttpResponse True status (Some targets)) parse_url dial))
            = Some OPEN
        \<and> NewWebSocket (UrlRecord (normalizeCdpWsUrl parsed host port'))
            \<in> set (effects (fst (connect s host port' (HttpResponse True status (Some targets))
                                    parse_url dial)))"
    if "select_target targets = Some c \<and> webSocketDebuggerUrl c = Some u \<and> u \<noteq> []
        \<and> parse_url u = Some parsed \<and> dial (normalizeCdpWsUrl parsed host port') = None"
  proof -
    from that have cu: "chosen_url targets = Some u" by (simp add: chosen_url_def)
    from that have pu: "parse_url u = Some parsed"
      and di: "dial (normalizeCdpWsUrl parsed host port') = None" by simp_all
    have eq: "connect s host port' (HttpResponse True status (Some targets)) parse_url dial
     = (connect_opened (emit (connect_begin s host port')
          [NewWebSocket (UrlRecord (normalizeCdpWsUrl parsed host port'))]), Inr ())"
      using cu pu di by (rule connect_success)
    show ?thesis
      unfolding eq
      by (simp add: ws_connect_opened)
         (simp add: connect_opened_def startHealthPing_def stopHealthPing_def emit_def
            split: option.splits)
  qed
  from 1 2 4 5 show ?thesis by (simp add: select_target_None)
qed


theorem connect_target_selection_witness:
  "select_target [worker_target, page_target] = Some page_target
   \<and> select_target [worker_target] = Some worker_target
   \<and> snd (connect new_CdpBridge ''10.0.0.5'' 9222 (HttpResponse True 200 (Some []))
            parse_example (\<lambda>u. None)) = Inl NoTarget
   \<and> snd (connect new_CdpBridge ''10.0.0.5'' 9222
            (HttpResponse True 200 (Some [worker_target, page_target]))
            parse_example (\<lambda>u. None)) = Inr ()
   \<and> ws (fst (connect new_CdpBridge ''10.0.0.5'' 9222
            (HttpResponse True 200 (Some [worker_target, page_target]))
            parse_example (\<lambda>u. None))) = Some OPEN"
proof -
  have a: "select_target [worker_target, page_target] = Some page_target"
    using connect_target_selection
      [of "[worker_target, page_target]" "[worker_target]" page_target "[]"]
    by (simp add: worker_target_def page_target_def)
  have b: "select_target [worker_target] = Some worker_target"
    using connect_target_selection [of "[worker_target]" _ worker_target _ "[]"]
    by (simp add: worker_target_def)
  have c: "snd (connect new_CdpBridge ''10.0.0.5'' 9222 (HttpResponse True 200 (Some []))
            parse_example (\<lambda>u. None)) = Inl NoTarget"
    using connect_target_selection [of "[]"] by simp
  have "select_target [worker_target, page_target] = Some page_target
      \<and> webSocketDebuggerUrl page_target = Some ''ws://127.0.0.1:9222/devtools/page/C3''
      \<and> ''ws://127.0.0.1:9222/devtools/page/C3'' \<noteq> []
      \<and> parse_example ''ws://127.0.0.1:9222/devtools/page/C3'' = Some page_address
      \<and> (\<lambda>u. None) (normalizeCdpWsUrl page_address ''10.0.0.5'' 9222) = (None :: string option)"
    using a by (simp add: page_target_def parse_example_def)
  with connect_target_selection
      [of "[worker_target, page_target]" _ _ _ _ new_CdpBridge "''10.0.0.5''" 9222 200
          parse_example "\<lambda>u. None" page_target "''ws://127.0.0.1:9222/devtools/page/C3''"
          page_address]
  have d: "snd (connect new_CdpBridge ''10.0.0.5'' 9222
            (HttpResponse True 200 (Some [worker_target, page_target]))
            parse_example (\<lambda>u. None)) = Inr ()
   \<and> ws (fst (connect new_CdpBridge ''10.0.0.5'' 9222
            (HttpResponse True 200 (Some [worker_target, page_target]))
            parse_example (\<lambda>u. None))) = Some OPEN"
    by blast
  from a b c d show ?thesis by blast
qed

section \<open>The effect log\<close>

lemma settled_append: "settled (a @ b) = settled a @ settled b"
  by (induction a rule: settled.induct) simp_all

lemma delays_append: "delays (a @ b) = delays a @ delays b"
  by (induction a rule: delays.induct) simp_all

lemma sent_ids_append: "sent_ids (a @ b) = sent_ids a @ sent_ids b"
  by (induction a rule: sent_ids.induct) simp_all

lemma fold_settle:
  "fold (\<lambda>kp s'. settle s' (snd kp) (Rejected err)) kps s =
     s\<lparr>effects := effects s @ map (\<lambda>kp. Settle (promise (snd kp)) (Rejected err)) kps,
       jobs := jobs s @ concat (map (\<lambda>kp. continuation (awaiter (snd kp)) (Rejected err)) kps)\<rparr>"
  by (induction kps arbitrary: s) (simp_all add: settle_def)

lemma reject_all_eq:
  "reject_all s err =
     s\<lparr>effects := effects s @ map (\<lambda>kp. Settle (promise (snd kp)) (Rejected err)) (pending s),
       jobs := jobs s @ concat (map (\<lambda>kp. continuation (awaiter (snd kp)) (Rejected err)) (pending s)),
       pending := []\<rparr>"
  by (simp add: reject_all_def fold_settle)

lemma settled_rejections:
  "settled (map (\<lambda>kp. Settle (promise (snd kp)) (Rejected err)) kps)
     = map (\<lambda>kp. (promise (snd kp), Rejected err)) kps"
  by (induction kps) simp_all

lemma delays_rejections: "delays (map (\<lambda>kp. Settle (promise (snd kp)) (Rejected err)) kps) = []"
  by (induction kps) simp_all

lemma sent_ids_rejections: "sent_ids (map (\<lambda>kp. Settle (promise (snd kp)) (Rejected err)) kps) = []"
  by (induction kps) simp_all

lemma settled_listeners: "settled (map (\<lambda>l. Notify (f l)) ls) = []"
  by (induction ls) simp_all

lemma delays_listeners: "delays (map (\<lambda>l. Notify (f l)) ls) = []"
  by (induction ls) simp_all

lemma sent_ids_listeners: "sent_ids (map (\<lambda>l. Notify (f l)) ls) = []"
  by (induction ls) simp_all

lemmas log_simps = settled_append delays_append sent_ids_append settled_rejections
  delays_rejections sent_ids_rejections settled_listeners delays_listeners sent_ids_listeners

section \<open>Target control connection: what a step changes\<close>

lemmas cdp_defs = connect_begin_def connect_opened_def send_def on_def off_def disconnect_def
  on_message_def on_close_def on_error_def reconnect_timer_def ping_timer_def
  rejectAllPending_def reject_all_eq scheduleReconnect_def stopHealthPing_def
  startHealthPing_def emit_def settle_def close_socket_def isConnected_def Let_def

text \<open>The continuations of the bridge touch the socket and nothing else.\<close>

lemma fold_cdp_run_job:
  "pending (fold cdp_run_job js s) = pending s
   \<and> nextPromise (fold cdp_run_job js s) = nextPromise s
   \<and> nextId (fold cdp_run_job js s) = nextId s
   \<and> backoffMs (fold cdp_run_job js s) = backoffMs s
   \<and> closed (fold cdp_run_job js s) = closed s
   \<and> jobs (fold cdp_run_job js s) = jobs s
   \<and> settled (effects (fold cdp_run_job js s)) = settled (effects s)
   \<and> delays (effects (fold cdp_run_job js s)) = delays (effects s)
   \<and> sent_ids (effects (fold cdp_run_job js s)) = sent_ids (effects s)"
proof (induction js arbitrary: s)
  case Nil
  show ?case by simp
next
  case (Cons j js)
  have "pending (cdp_run_job j s) = pending s
   \<and> nextPromise (cdp_run_job j s) = nextPromise s
   \<and> nextId (cdp_run_job j s) = nextId s
   \<and> backoffMs (cdp_run_job j s) = backoffMs s
   \<and> closed (cdp_run_job j s) = closed s
   \<and> jobs (cdp_run_job j s) = jobs s
   \<and> settled (effects (cdp_run_job j s)) = settled (effects s)
   \<and> delays (effects (cdp_run_job j s)) = delays (effects s)
   \<and> sent_ids (effects (cdp_run_job j s)) = sent_ids (effects s)"
    by (cases j) (simp_all add: close_socket_def emit_def log_simps split: option.splits)
  with Cons.IH [of "cdp_run_job j s"] show ?case by simp
qed

lemma cdp_drain_keeps:
  "pending (cdp_drain s) = pending s"
  "nextPromise (cdp_drain s) = nextPromise s"
  "nextId (cdp_drain s) = nextId s"
  "backoffMs (cdp_drain s) = backoffMs s"
  "closed (cdp_drain s) = closed s"
  "jobs (cdp_drain s) = []"
  "settled (effects (cdp_drain s)) = settled (effects s)"
  "delays (effects (cdp_drain s)) = delays (effects s)"
  "sent_ids (effects (cdp_drain s)) = sent_ids (effects s)"
  using fold_cdp_run_job [of "jobs s" "s\<lparr>jobs := []\<rparr>"] by (simp_all add: cdp_drain_def)

lemma cdp_step_backoffMs:
  "backoffMs (cdp_step s e) =
     (if e = Connect_opened then 1000
      else if e = Close \<and> \<not> closed s then min (backoffMs s * 2) 30000
      else backoffMs s)"
  by (cases e) (simp_all add: cdp_step_def cdp_drain_keeps cdp_defs split: option.splits)

lemma cdp_step_delays:
  "delays (effects (cdp_step s e)) =
     delays (effects s) @ (if e = Close \<and> \<not> closed s then [backoffMs s] else [])"
  by (cases e)
     (simp_all add: cdp_step_def cdp_drain_keeps cdp_defs log_simps split: option.splits)

lemma cdp_step_nextId:
  "nextId (cdp_step s e) =
     (if (e = Ping_timer \<and> pingTimer s \<noteq> None \<or> (\<exists>m ps. e = Send m ps)) \<and> ws s = Some OPEN
      then nextId s + 1 else nextId s)"
  by (cases e) (auto simp: cdp_step_def cdp_drain_keeps cdp_defs split: option.splits)

lemma cdp_step_sent_ids:
  "sent_ids (effects (cdp_step s e)) =
     sent_ids (effects s) @
     (if (e = Ping_timer \<and> pingTimer s \<noteq> None \<or> (\<exists>m ps. e = Send m ps)) \<and> ws s = Some OPEN
      then [nextId s] else [])"
  by (cases e)
     (auto simp: cdp_step_def cdp_drain_keeps cdp_defs log_simps split: option.splits)

lemma backoff_delay_double:
  "min (backoff_delay (Suc j) * 2) 30000 = backoff_delay (Suc (Suc j))"
  by (simp add: backoff_delay_def min_def)

lemma cdp_run_Cons: "cdp_run s (e # evs) = cdp_run (cdp_step s e) evs"
  by (simp add: cdp_run_def)

lemma cdp_run_Nil: "cdp_run s [] = s"
  by (simp add: cdp_run_def)

lemma cdp_run_append: "cdp_run s (xs @ ys) = cdp_run (cdp_run s xs) ys"
  by (simp add: cdp_run_def)

lemma cdp_backoff_run:
  "backoffMs s = backoff_delay (Suc j) \<Longrightarrow> Connect_opened \<notin> set evs \<Longrightarrow>
   \<exists>k. delays (effects (cdp_run s evs)) = delays (effects s) @ map backoff_delay [Suc j..<Suc j + k]
      \<and> backoffMs (cdp_run s evs) = backoff_delay (Suc (j + k))"
proof (induction evs arbitrary: s j)
  case Nil
  then show ?case by (intro exI [of _ 0]) (simp add: cdp_run_Nil)
next
  case (Cons e evs)
  from Cons.prems have ne: "e \<noteq> Connect_opened" and rest: "Connect_opened \<notin> set evs" by auto
  show ?case
  proof (cases "e = Close \<and> \<not> closed s")
    case True
    have b: "backoffMs (cdp_step s e) = backoff_delay (Suc (Suc j))"
      using True ne Cons.prems(1) by (simp add: cdp_step_backoffMs backoff_delay_double)
    have d: "delays (effects (cdp_step s e)) = delays (effects s) @ [backoff_delay (Suc j)]"
      using True Cons.prems(1) by (simp add: cdp_step_delays)
    from Cons.IH [OF b rest] obtain k where
      k: "delays (effects (cdp_run (cdp_step s e) evs))
            = delays (effects (cdp_step s e)) @ map backoff_delay [Suc (Suc j)..<Suc (Suc j) + k]"
         "backoffMs (cdp_run (cdp_step s e) evs) = backoff_delay (Suc (Suc j + k))"
      by blast
    have "[Suc j..<Suc j + Suc k] = Suc j # [Suc (Suc j)..<Suc (Suc j) + k]"
      by (simp add: upt_conv_Cons)
    with k d show ?thesis
      by (intro exI [of _ "Suc k"]) (simp add: cdp_run_Cons)
  next
    case False
    have b: "backoffMs (cdp_step s e) = backoff_delay (Suc j)"
      using False ne Cons.prems(1) by (auto simp: cdp_step_backoffMs)
    have d: "delays (effects (cdp_step s e)) = delays (effects s)"
      using False by (auto simp: cdp_step_delays)
    from Cons.IH [OF b rest] obtain k where
      "delays (effects (cdp_run (cdp_step s e) evs))
            = delays (effects (cdp_step s e)) @ map backoff_delay [Suc j..<Suc j + k]"
      "backoffMs (cdp_run (cdp_step s e) evs) = backoff_delay (Suc (j + k))"
      by blast
    with d show ?thesis by (intro exI [of _ k]) (simp add: cdp_run_Cons)
  qed
qed

lemma backoff_delay_1: "backoff_delay (Suc 0) = 1000"
  by (simp add: backoff_delay_def)

lemma cdp_backoff_from_1000:
  assumes "backoffMs s = 1000" and "Connect_opened \<notin> set evs"
  shows "\<exists>k. delays (effects (cdp_run s evs))
            = delays (effects s) @ map (\<lambda>N. min (1000 * 2 ^ (N - 1)) 30000) [1..<Suc k]
      \<and> backoffMs (cdp_run s evs) = min (1000 * 2 ^ k) 30000"
proof -
  from assms have "backoffMs s = backoff_delay (Suc 0)" by (simp add: backoff_delay_1)
  from cdp_backoff_run [OF this assms(2)] obtain k where
    k: "delays (effects (cdp_run s evs)) = delays (effects s) @ map backoff_delay [Suc 0..<Suc 0 + k]"
    "backoffMs (cdp_run s evs) = backoff_delay (Suc (0 + k))" by blast
  have "map backoff_delay [Suc 0..<Suc 0 + k] = map (\<lambda>N. min (1000 * 2 ^ (N - 1)) 30000) [1..<Suc k]"
    by (simp add: backoff_delay_def)
  moreover have "backoff_delay (Suc (0 + k)) = min (1000 * 2 ^ k) 30000"
    by (simp add: backoff_delay_def)
  ultimately show ?thesis using k by (intro exI [of _ k]) simp
qed

lemma cdp_ids_run:
  "nextId s \<le> nextId (cdp_run s evs)
   \<and> sent_ids (effects (cdp_run s evs)) = sent_ids (effects s) @ [nextId s..nextId (cdp_run s evs) - 1]"
proof (induction evs arbitrary: s)
  case Nil
  show ?case by (simp add: cdp_run_Nil)
next
  case (Cons e evs)
  let ?s = "cdp_step s e"
  note IH = Cons.IH [of ?s]
  show ?case
  proof (cases "nextId ?s = nextId s")
    case True
    then have "sent_ids (effects ?s) = sent_ids (effects s)"
      by (auto simp: cdp_step_nextId cdp_step_sent_ids split: if_splits)
    with IH True show ?thesis by (simp add: cdp_run_Cons)
  next
    case False
    then have n: "nextId ?s = nextId s + 1" and i: "sent_ids (effects ?s) = sent_ids (effects s) @ [nextId s]"
      by (auto simp: cdp_step_nextId cdp_step_sent_ids split: if_splits)
    from IH n have le: "nextId s + 1 \<le> nextId (cdp_run ?s evs)" by simp
    have "[nextId s..nextId (cdp_run ?s evs) - 1] = nextId s # [nextId s + 1..nextId (cdp_run ?s evs) - 1]"
      using le by (simp add: upto_rec1)
    with IH n i le show ?thesis by (simp add: cdp_run_Cons)
  qed
qed

lemma cdp_step_pending:
  "pending (cdp_step s e) =
     (case e of
        Send m ps \<Rightarrow>
          if ws s = Some OPEN
          then AList.update (nextId s) \<lparr>promise = nextPromise s, awaiter = Caller\<rparr> (pending s)
          else pending s
      | Ping_timer \<Rightarrow>
          if pingTimer s \<noteq> None \<and> ws s = Some OPEN
          then AList.update (nextId s) \<lparr>promise = nextPromise s, awaiter = HealthPing\<rparr> (pending s)
          else pending s
      | Message (Some m) \<Rightarrow>
          (case msg_id m of None \<Rightarrow> pending s | Some i \<Rightarrow> AList.delete i (pending s))
      | Close \<Rightarrow> []
      | Error err \<Rightarrow> []
      | Disconnect \<Rightarrow> []
      | _ \<Rightarrow> pending s)"
proof (cases e)
  case (Message parsed)
  show ?thesis
  proof (cases parsed)
    case None
    with Message show ?thesis by (simp add: cdp_step_def cdp_drain_keeps on_message_def)
  next
    case (Some m)
    show ?thesis
    proof (cases "msg_id m")
      case None
      with Message Some show ?thesis
        by (simp add: cdp_step_def cdp_drain_keeps on_message_def emit_def split: option.splits)
    next
      case (Some i)
      have "map_of (pending s) i = None \<Longrightarrow> AList.delete i (pending s) = pending s"
        by (simp add: delete_id map_of_eq_None_iff)
      with Message \<open>parsed = Some m\<close> Some show ?thesis
        by (simp add: cdp_step_def cdp_drain_keeps on_message_def settle_def Let_def
            split: option.splits)
    qed
  qed
qed (auto simp: cdp_step_def cdp_drain_keeps cdp_defs split: option.splits)

lemma keys_update: "fst ` set (AList.update k v al) = insert k (fst ` set al)"
  by (induction al) auto

lemma keys_delete: "fst ` set (AList.delete k al) = fst ` set al - {k}"
  by (induction al) auto

lemma cdp_step_keys:
  "fst ` set (pending (cdp_step s e)) \<subseteq> fst ` set (pending s) \<union> {i. i = nextId s \<and> nextId (cdp_step s e) = nextId s + 1}"
proof (cases e)
  case (Message parsed)
  then show ?thesis
    by (cases parsed) (auto simp: cdp_step_pending keys_delete split: option.splits)
qed (auto simp: cdp_step_pending cdp_step_nextId keys_update)

lemma cdp_step_nextId_mono: "nextId s \<le> nextId (cdp_step s e)"
  by (simp add: cdp_step_nextId)

lemma keys_between_step:
  assumes a: "keys_between lo s"
  shows "keys_between lo (cdp_step s e)"
proof -
  have m: "nextId s \<le> nextId (cdp_step s e)" by (rule cdp_step_nextId_mono)
  have 1: "lo \<le> nextId (cdp_step s e)" using a m by (simp add: keys_between_def)
  have 2: "lo \<le> k \<and> k < nextId (cdp_step s e)"
    if "k \<in> fst ` set (pending (cdp_step s e))" for k
  proof -
    from that cdp_step_keys [of s e]
    have "k \<in> fst ` set (pending s) \<or> (k = nextId s \<and> nextId (cdp_step s e) = nextId s + 1)"
      by auto
    then show ?thesis using a m by (auto simp: keys_between_def)
  qed
  from 1 2 show ?thesis unfolding keys_between_def by blast
qed

lemma keys_between_run: "keys_between lo s \<Longrightarrow> keys_between lo (cdp_run s evs)"
  by (induction evs arbitrary: s) (simp_all add: cdp_run_Nil cdp_run_Cons keys_between_step)

lemma on_message_unknown:
  "msg_id m = Some i \<Longrightarrow> map_of (pending s) i = None \<Longrightarrow> on_message s (Some m) = s"
  by (simp add: on_message_def)

section \<open>Gateway connection: what a step changes\<close>

lemmas gw_unfold = start_def stop_def request_def
  sendConnect_def handleMessage_def gw_on_close_def gw_on_error_def gw_on_open_def
  gw_scheduleReconnect_def flushPendingErrors_def clearTickTimer_def startTickWatch_def
  tick_watch_def tick_timer_def then_hello_def catch_connect_def
  emit_def settle_def reject_all_eq close_socket_def Let_def

lemma gw_run_job_keeps:
  "pending (gw_run_job now j s) = pending s
   \<and> nextPromise (gw_run_job now j s) = nextPromise s
   \<and> closed (gw_run_job now j s) = closed s
   \<and> settled (effects (gw_run_job now j s)) = settled (effects s)
   \<and> delays (effects (gw_run_job now j s)) = delays (effects s)
   \<and> sent_ids (effects (gw_run_job now j s)) = sent_ids (effects s)
   \<and> (\<not> is_then j \<longrightarrow> backoffMs (gw_run_job now j s) = backoffMs s \<and> jobs (gw_run_job now j s) = jobs s)
   \<and> (is_then j \<longrightarrow> backoffMs (gw_run_job now j s) = 1000)
   \<and> (list_all (\<lambda>j. \<not> is_then j) (jobs s) \<longrightarrow> list_all (\<lambda>j. \<not> is_then j) (jobs (gw_run_job now j s)))"
  by (cases j) (simp_all add: gw_unfold log_simps split: option.splits)

lemma fold_gw_run_job_keeps:
  "pending (fold (gw_run_job now) js s) = pending s
   \<and> nextPromise (fold (gw_run_job now) js s) = nextPromise s
   \<and> closed (fold (gw_run_job now) js s) = closed s
   \<and> settled (effects (fold (gw_run_job now) js s)) = settled (effects s)
   \<and> delays (effects (fold (gw_run_job now) js s)) = delays (effects s)
   \<and> sent_ids (effects (fold (gw_run_job now) js s)) = sent_ids (effects s)
   \<and> (list_all (\<lambda>j. \<not> is_then j) (jobs s) \<longrightarrow> list_all (\<lambda>j. \<not> is_then j) (jobs (fold (gw_run_job now) js s)))"
proof (induction js arbitrary: s)
  case Nil
  show ?case by simp
next
  case (Cons j js)
  from gw_run_job_keeps [of now j s] Cons.IH [of "gw_run_job now j s"]
  show ?case by simp
qed

lemma fold_gw_run_job_backoff:
  "backoffMs (fold (gw_run_job now) js s) = (if list_all (\<lambda>j. \<not> is_then j) js then backoffMs s else 1000)"
proof (induction js arbitrary: s rule: rev_induct)
  case Nil
  show ?case by simp
next
  case (snoc j js)
  from gw_run_job_keeps [of now j "fold (gw_run_job now) js s"] snoc.IH [of s]
  show ?case by (cases "is_then j") simp_all
qed

lemma gw_drain_keeps:
  "pending (gw_drain s now) = pending s"
  "nextPromise (gw_drain s now) = nextPromise s"
  "closed (gw_drain s now) = closed s"
  "jobs (gw_drain s now) = []"
  "settled (effects (gw_drain s now)) = settled (effects s)"
  "delays (effects (gw_drain s now)) = delays (effects s)"
  "sent_ids (effects (gw_drain s now)) = sent_ids (effects s)"
  using fold_gw_run_job_keeps [of now "jobs s" "s\<lparr>jobs := []\<rparr>"]
    fold_gw_run_job_keeps [of now "jobs (fold (gw_run_job now) (jobs s) (s\<lparr>jobs := []\<rparr>))"
      "(fold (gw_run_job now) (jobs s) (s\<lparr>jobs := []\<rparr>))\<lparr>jobs := []\<rparr>"]
  by (simp_all add: gw_drain_def Let_def)

lemma gw_drain_backoff:
  "backoffMs (gw_drain s now) = (if list_all (\<lambda>j. \<not> is_then j) (jobs s) then backoffMs s else 1000)"
proof -
  let ?s1 = "fold (gw_run_job now) (jobs s) (s\<lparr>jobs := []\<rparr>)"
  have "list_all (\<lambda>j. \<not> is_then j) (jobs ?s1)"
    using fold_gw_run_job_keeps [of now "jobs s" "s\<lparr>jobs := []\<rparr>"] by simp
  then show ?thesis
    by (simp add: gw_drain_def Let_def fold_gw_run_job_backoff)
qed

lemma jobs_reject_all_no_then:
  "list_all (\<lambda>j. \<not> is_then j) (concat (map (\<lambda>kp. continuation (awaiter (snd kp)) (Rejected err)) kps))"
proof (induction kps)
  case Nil
  show ?case by simp
next
  case (Cons kp kps)
  then show ?case by (cases "awaiter (snd kp)") simp_all
qed

lemma gw_handle_jobs:
  "jobs s = [] \<Longrightarrow>
   list_all (\<lambda>j. \<not> is_then j) (jobs (gw_handle s ev now uuid)) \<longleftrightarrow> \<not> gw_reopens s ev"
proof (cases ev)
  case (Frame parsed)
  assume j: "jobs s = []"
  show ?thesis
  proof (cases parsed)
    case None
    with Frame j show ?thesis by (simp add: handleMessage_def)
  next
    case (Some fr)
    show ?thesis
    proof (cases fr)
      case (EventMsg evt)
      with Frame Some j show ?thesis
        by (simp add: gw_unfold split: option.splits)
    next
      case (ResMsg r)
      show ?thesis
      proof (cases "map_of (pending s) (res_id r)")
        case None
        with Frame Some ResMsg j show ?thesis by (simp add: handleMessage_def)
      next
        case (Some p)
        with Frame \<open>parsed = Some fr\<close> ResMsg j show ?thesis
          by (cases "awaiter p") (simp_all add: handleMessage_def settle_def Let_def)
      qed
    next
      case OtherMsg
      with Frame Some j show ?thesis by (simp add: handleMessage_def)
    qed
  qed
qed (simp_all add: gw_unfold jobs_reject_all_no_then split: option.splits)

lemma gw_handle_backoffMs:
  "backoffMs (gw_handle s ev now uuid) =
     (if (\<exists>c r. ev = Closed c r) \<and> \<not> closed s then min (backoffMs s * 2) 30000 else backoffMs s)"
proof (cases ev)
  case (Frame parsed)
  show ?thesis
  proof (cases parsed)
    case None
    with Frame show ?thesis by (simp add: handleMessage_def)
  next
    case (Some fr)
    with Frame show ?thesis
      by (cases fr) (simp_all add: gw_unfold split: option.splits)
  qed
qed (simp_all add: gw_unfold split: option.splits)

lemma gw_handle_delays:
  "delays (effects (gw_handle s ev now uuid)) =
     delays (effects s) @ (if (\<exists>c r. ev = Closed c r) \<and> \<not> closed s then [backoffMs s] else [])"
proof (cases ev)
  case (Frame parsed)
  show ?thesis
  proof (cases parsed)
    case None
    with Frame show ?thesis by (simp add: handleMessage_def)
  next
    case (Some fr)
    with Frame show ?thesis
      by (cases fr) (simp_all add: gw_unfold log_simps split: option.splits)
  qed
qed (simp_all add: gw_unfold log_simps split: option.splits)

lemma gw_step_backoffMs:
  "jobs s = [] \<Longrightarrow>
   backoffMs (gw_step s (ev, now, uuid)) =
     (if gw_reopens s ev then 1000
      else if (\<exists>c r. ev = Closed c r) \<and> \<not> closed s then min (backoffMs s * 2) 30000
      else backoffMs s)"
  using gw_handle_jobs [of s ev now uuid]
  by (simp add: gw_step_def gw_drain_backoff gw_handle_backoffMs)

lemma gw_step_delays:
  "delays (effects (gw_step s (ev, now, uuid))) =
     delays (effects s) @ (if (\<exists>c r. ev = Closed c r) \<and> \<not> closed s then [backoffMs s] else [])"
  by (simp add: gw_step_def gw_drain_keeps gw_handle_delays)

lemma gw_step_jobs: "jobs (gw_step s x) = []"
  by (cases x) (simp add: gw_step_def gw_drain_keeps)

lemma gw_run_Cons: "gw_run s (x # xs) = gw_run (gw_step s x) xs"
  by (simp add: gw_run_def)

lemma gw_run_Nil: "gw_run s [] = s"
  by (simp add: gw_run_def)

lemma gw_backoff_run:
  "backoffMs s = backoff_delay (Suc j) \<Longrightarrow> jobs s = [] \<Longrightarrow> gw_no_reopen s xs \<Longrightarrow>
   \<exists>k. delays (effects (gw_run s xs)) = delays (effects s) @ map backoff_delay [Suc j..<Suc j + k]
      \<and> backoffMs (gw_run s xs) = backoff_delay (Suc (j + k))"
proof (induction xs arbitrary: s j)
  case Nil
  then show ?case by (intro exI [of _ 0]) (simp add: gw_run_Nil)
next
  case (Cons x xs)
  obtain ev now uuid where x: "x = (ev, now, uuid)" by (cases x) auto
  from Cons.prems x have ne: "\<not> gw_reopens s ev" and rest: "gw_no_reopen (gw_step s x) xs" by auto
  have j': "jobs (gw_step s x) = []" by (rule gw_step_jobs)
  show ?case
  proof (cases "(\<exists>c r. ev = Closed c r) \<and> \<not> closed s")
    case True
    have b: "backoffMs (gw_step s x) = backoff_delay (Suc (Suc j))"
      using True ne Cons.prems(1,2) unfolding x
      by (simp add: gw_step_backoffMs backoff_delay_double)
    have d: "delays (effects (gw_step s x)) = delays (effects s) @ [backoff_delay (Suc j)]"
      using True Cons.prems(1) unfolding x by (simp add: gw_step_delays)
    from Cons.IH [OF b j' rest] obtain k where
      k: "delays (effects (gw_run (gw_step s x) xs))
            = delays (effects (gw_step s x)) @ map backoff_delay [Suc (Suc j)..<Suc (Suc j) + k]"
         "backoffMs (gw_run (gw_step s x) xs) = backoff_delay (Suc (Suc j + k))"
      by blast
    have "[Suc j..<Suc j + Suc k] = Suc j # [Suc (Suc j)..<Suc (Suc j) + k]"
      by (simp add: upt_conv_Cons)
    with k d show ?thesis
      by (intro exI [of _ "Suc k"]) (simp add: gw_run_Cons)
  next
    case False
    have b: "backoffMs (gw_step s x) = backoff_delay (Suc j)"
      using False ne Cons.prems(1,2) unfolding x by (auto simp: gw_step_backoffMs)
    have d: "delays (effects (gw_step s x)) = delays (effects s)"
      using False unfolding x by (auto simp: gw_step_delays)
    from Cons.IH [OF b j' rest] obtain k where
      "delays (effects (gw_run (gw_step s x) xs))
            = delays (effects (gw_step s x)) @ map backoff_delay [Suc j..<Suc j + k]"
      "backoffMs (gw_run (gw_step s x) xs) = backoff_delay (Suc (j + k))"
      by blast
    with d show ?thesis by (intro exI [of _ k]) (simp add: gw_run_Cons)
  qed
qed

section \<open>Reconnection backoff and correlation ids\<close>

lemmas cdp_eval = cdp_run_def cdp_step_def cdp_drain_def new_CdpBridge_def cdp_defs

lemma bridge_open_eq:
  "bridge_open =
     \<lparr>ws = Some OPEN, pending = [], closed = False, backoffMs = 1000,
      nextPromise = 0, jobs = [], effects = [SetInterval 10000],
      nextId = 1, eventListeners = [], pingTimer = Some 10000,
      connectHost = ''127.0.0.1'', connectPort = 19222\<rparr>"
  by (simp add: bridge_open_def cdp_eval)

text \<open>
  C4. Let the backoff interval be 1000 ms, as it is in a new connection and after every
  successful reopening. While no reopening succeeds, whatever else happens, the delays
  of the reconnect timers that are set are, in order, \<open>min (1000 * 2^(N-1)) 30000\<close> for
  \<open>N = 1, 2, ...\<close>, and the interval kept for the next one continues the sequence. A
  successful reopening (for the bridge what follows the \<open>open\<close> event in \<open>connect\<close>,
  for the gateway client the acknowledgement of the handshake) sets the interval to
  1000 ms again.
\<close>

theorem reconnect_backoff:
  "(backoffMs b = 1000 \<and> Connect_opened \<notin> set evs \<longrightarrow>
      (\<exists>k. delays (effects (cdp_run b evs))
              = delays (effects b) @ map (\<lambda>N. min (1000 * 2 ^ (N - 1)) 30000) [1..<Suc k]
          \<and> backoffMs (cdp_run b evs) = min (1000 * 2 ^ k) 30000))
   \<and> backoffMs (cdp_step b Connect_opened) = 1000
   \<and> backoffMs new_CdpBridge = 1000
   \<and> (backoffMs g = 1000 \<and> jobs g = [] \<and> gw_no_reopen g xs \<longrightarrow>
      (\<exists>k. delays (effects (gw_run g xs))
              = delays (effects g) @ map (\<lambda>N. min (1000 * 2 ^ (N - 1)) 30000) [1..<Suc k]
          \<and> backoffMs (gw_run g xs) = min (1000 * 2 ^ k) 30000))
   \<and> (jobs g = [] \<and> gw_reopens g ev \<longrightarrow> backoffMs (gw_step g (ev, now, uuid)) = 1000)
   \<and> backoffMs (new_GatewayClient u t pf) = 1000"
proof -
  have 1: "backoffMs b = 1000 \<and> Connect_opened \<notin> set evs \<longrightarrow>
      (\<exists>k. delays (effects (cdp_run b evs))
              = delays (effects b) @ map (\<lambda>N. min (1000 * 2 ^ (N - 1)) 30000) [1..<Suc k]
          \<and> backoffMs (cdp_run b evs) = min (1000 * 2 ^ k) 30000)"
    using cdp_backoff_from_1000 by blast
  have 2: "backoffMs (cdp_step b Connect_opened) = 1000" by (simp add: cdp_step_backoffMs)
  have 3: "backoffMs new_CdpBridge = 1000" by (simp add: new_CdpBridge_def)
  have 4: "\<exists>k. delays (effects (gw_run g xs))
              = delays (effects g) @ map (\<lambda>N. min (1000 * 2 ^ (N - 1)) 30000) [1..<Suc k]
          \<and> backoffMs (gw_run g xs) = min (1000 * 2 ^ k) 30000"
    if "backoffMs g = 1000 \<and> jobs g = [] \<and> gw_no_reopen g xs"
  proof -
    from that have "backoffMs g = backoff_delay (Suc 0)" by (simp add: backoff_delay_1)
    from gw_backoff_run [OF this] that obtain k where
      k: "delays (effects (gw_run g xs)) = delays (effects g) @ map backoff_delay [Suc 0..<Suc 0 + k]"
      "backoffMs (gw_run g xs) = backoff_delay (Suc (0 + k))" by blast
    have "map backoff_delay [Suc 0..<Suc 0 + k] = map (\<lambda>N. min (1000 * 2 ^ (N - 1)) 30000) [1..<Suc k]"
      by (simp add: backoff_delay_def)
    moreover have "backoff_delay (Suc (0 + k)) = min (1000 * 2 ^ k) 30000"
      by (simp add: backoff_delay_def)
    ultimately show ?thesis using k by (intro exI [of _ k]) simp
  qed
  have 5: "jobs g = [] \<and> gw_reopens g ev \<longrightarrow> backoffMs (gw_step g (ev, now, uuid)) = 1000"
    by (simp add: gw_step_backoffMs)
  have 6: "backoffMs (new_GatewayClient u t pf) = 1000" by (simp add: new_GatewayClient_def)
  from 1 2 3 4 5 6 show ?thesis by blast
qed

lemma delays_seven:
  "delays (effects (cdp_run bridge_open seven_closes)) = [1000, 2000, 4000, 8000, 16000, 30000, 30000]"
  by (simp add: bridge_open_eq seven_closes_def cdp_eval)

lemma gw_two_closes_run:
  "gw_no_reopen gw_after_hello gw_two_closes
   \<and> delays (effects (gw_run gw_after_hello gw_two_closes)) = [1000, 2000]"
  by (simp add: gw_after_hello_eq gw_two_closes_def gw_eval reject_all_def)

theorem reconnect_backoff_witness:
  "backoffMs bridge_open = 1000
   \<and> (\<exists>k. delays (effects (cdp_run bridge_open seven_closes))
              = delays (effects bridge_open) @ map (\<lambda>N. min (1000 * 2 ^ (N - 1)) 30000) [1..<Suc k]
          \<and> backoffMs (cdp_run bridge_open seven_closes) = min (1000 * 2 ^ k) 30000)
   \<and> delays (effects (cdp_run bridge_open seven_closes))
       = [1000, 2000, 4000, 8000, 16000, 30000, 30000]
   \<and> backoffMs gw_after_hello = 1000 \<and> jobs gw_after_hello = []
   \<and> gw_no_reopen gw_after_hello gw_two_closes
   \<and> (\<exists>k. delays (effects (gw_run gw_after_hello gw_two_closes))
              = delays (effects gw_after_hello) @ map (\<lambda>N. min (1000 * 2 ^ (N - 1)) 30000) [1..<Suc k]
          \<and> backoffMs (gw_run gw_after_hello gw_two_closes) = min (1000 * 2 ^ k) 30000)
   \<and> delays (effects (gw_run gw_after_hello gw_two_closes)) = [1000, 2000]"
proof -
  have h1: "backoffMs bridge_open = 1000 \<and> Connect_opened \<notin> set seven_closes"
    by (simp add: bridge_open_eq seven_closes_def)
  have h2: "backoffMs gw_after_hello = 1000 \<and> jobs gw_after_hello = []"
    by (simp add: gw_after_hello_eq)
  note inst = reconnect_backoff [where b = bridge_open and evs = seven_closes
      and g = gw_after_hello and xs = gw_two_closes and ev = Start and now = 0 and uuid = "''''"
      and u = None and t = None and pf = "''''"]
  from inst h1 h2 gw_two_closes_run delays_seven show ?thesis by blast
qed

lemma cdp_history_run:
  "nextId (cdp_run new_CdpBridge cdp_history) = 3
   \<and> sent_ids (effects (cdp_run new_CdpBridge cdp_history)) = [1, 2]"
  by (simp add: cdp_history_def cdp_eval)

text \<open>
  C10. In every state \<open>s\<close> that a bridge reaches from its construction: the id counter
  starts at 1; the ids sent so far are \<open>1, ..., nextId s - 1\<close> in this order, so they
  are strictly increasing and no two are equal; no step lowers the counter, and
  \<open>disconnect\<close>, a close, the reconnect timer and \<open>connect\<close> leave it as it is; a close
  empties the pending map; whatever is sent later continues the sequence; and after a
  close, a response with an id issued before it is dropped in every later state, so it
  resolves no request issued after the close.
\<close>

theorem correlation_ids_strictly_increasing:
  assumes "s = cdp_run new_CdpBridge evs"
  shows "nextId new_CdpBridge = 1
       \<and> sent_ids (effects s) = [1..nextId s - 1]
       \<and> distinct (sent_ids (effects s))
       \<and> sorted_wrt (<) (sent_ids (effects s))
       \<and> nextId s \<le> nextId (cdp_step s e)
       \<and> nextId (cdp_step s Disconnect) = nextId s
       \<and> nextId (cdp_step s Close) = nextId s
       \<and> nextId (cdp_step s Reconnect_timer) = nextId s
       \<and> nextId (cdp_step s (Connect_begin host port')) = nextId s
       \<and> nextId (cdp_step s Connect_opened) = nextId s
       \<and> pending (cdp_step s Close) = []
       \<and> sent_ids (effects (cdp_run s evs')) = sent_ids (effects s) @ [nextId s..nextId (cdp_run s evs') - 1]
       \<and> (msg_id m = Some i \<and> i < nextId s \<longrightarrow>
            on_message (cdp_run (cdp_step s Close) evs') (Some m) = cdp_run (cdp_step s Close) evs')"
proof -
  have 1: "nextId new_CdpBridge = 1" by (simp add: new_CdpBridge_def)
  have "sent_ids (effects new_CdpBridge) = []" by (simp add: new_CdpBridge_def)
  with cdp_ids_run [of new_CdpBridge evs] 1 assms
  have 2: "sent_ids (effects s) = [1..nextId s - 1]" by simp
  have 3: "distinct (sent_ids (effects s))" unfolding 2 by simp
  have 4: "sorted_wrt (<) (sent_ids (effects s))" unfolding 2 by simp
  have 5: "nextId s \<le> nextId (cdp_step s e)" by (rule cdp_step_nextId_mono)
  have 6: "nextId (cdp_step s Disconnect) = nextId s" "nextId (cdp_step s Close) = nextId s"
    "nextId (cdp_step s Reconnect_timer) = nextId s"
    "nextId (cdp_step s (Connect_begin host port')) = nextId s"
    "nextId (cdp_step s Connect_opened) = nextId s"
    by (simp_all add: cdp_step_nextId)
  have 7: "pending (cdp_step s Close) = []" by (simp add: cdp_step_pending)
  have 8: "sent_ids (effects (cdp_run s evs')) = sent_ids (effects s) @ [nextId s..nextId (cdp_run s evs') - 1]"
    using cdp_ids_run [of s evs'] by simp
  have 9: "on_message (cdp_run (cdp_step s Close) evs') (Some m) = cdp_run (cdp_step s Close) evs'"
    if "msg_id m = Some i \<and> i < nextId s"
  proof -
    have "keys_between (nextId s) (cdp_step s Close)"
      by (simp add: keys_between_def 7 6)
    then have "keys_between (nextId s) (cdp_run (cdp_step s Close) evs')"
      by (rule keys_between_run)
    with that have "i \<notin> fst ` set (pending (cdp_run (cdp_step s Close) evs'))"
      by (auto simp: keys_between_def)
    then have "map_of (pending (cdp_run (cdp_step s Close) evs')) i = None"
      by (simp add: map_of_eq_None_iff)
    with that show ?thesis by (simp add: on_message_unknown)
  qed
  from 1 2 3 4 5 6 7 8 9 show ?thesis by blast
qed

theorem correlation_ids_strictly_increasing_witness:
  "sent_ids (effects (cdp_run new_CdpBridge cdp_history)) = [1, 2]
   \<and> nextId (cdp_step (cdp_run new_CdpBridge cdp_history) Close) = 3
   \<and> pending (cdp_step (cdp_run new_CdpBridge cdp_history) Close) = []
   \<and> msg_id late_reply = Some 1
   \<and> on_message (cdp_run (cdp_step (cdp_run new_CdpBridge cdp_history) Close) cdp_after_close)
        (Some late_reply)
       = cdp_run (cdp_step (cdp_run new_CdpBridge cdp_history) Close) cdp_after_close
   \<and> sent_ids (effects
        (cdp_run (cdp_step (cdp_run new_CdpBridge cdp_history) Close) cdp_after_close)) = [1, 2, 3]"
proof -
  note inst = correlation_ids_strictly_increasing
      [where s = "cdp_run new_CdpBridge cdp_history" and evs = cdp_history
         and evs' = cdp_after_close and m = late_reply and i = 1 and e = Close
         and host = "''h''" and port' = 1, OF refl]
  have h: "msg_id late_reply = Some 1 \<and> 1 < nextId (cdp_run new_CdpBridge cdp_history)"
    by (simp add: late_reply_def cdp_history_run)
  have a: "sent_ids (effects (cdp_run new_CdpBridge cdp_history)) = [1, 2]"
    using inst by (simp add: cdp_history_run upto_rec1)
  have b: "nextId (cdp_step (cdp_run new_CdpBridge cdp_history) Close) = 3"
    using inst by (simp add: cdp_history_run)
  have c: "sent_ids (effects
        (cdp_run (cdp_step (cdp_run new_CdpBridge cdp_history) Close) cdp_after_close)) = [1, 2, 3]"
    by (simp add: cdp_history_def cdp_after_close_def cdp_eval)
  from inst h a b c show ?thesis by blast
qed

section \<open>Pending requests and their promises\<close>

lemma in_promises_of: "q \<in> set (promises_of pd) \<longleftrightarrow> (\<exists>kp \<in> set pd. promise (snd kp) = q)"
  by (auto simp: promises_of_def)

lemma promises_of_Cons: "promises_of (a # pd) = promise (snd a) # promises_of pd"
  by (simp add: promises_of_def)

lemma promises_of_Nil: "promises_of [] = []"
  by (simp add: promises_of_def)

lemma promises_update_set:
  "set (promises_of (AList.update k v pd)) \<subseteq> insert (promise v) (set (promises_of pd))"
  by (induction pd) (auto simp: promises_of_Cons promises_of_Nil)

lemma promises_update_distinct:
  "distinct (promises_of pd) \<Longrightarrow> promise v \<notin> set (promises_of pd)
   \<Longrightarrow> distinct (promises_of (AList.update k v pd))"
proof (induction pd)
  case Nil
  then show ?case by (simp add: promises_of_Cons promises_of_Nil)
next
  case (Cons a pd)
  show ?case
  proof (cases "fst a = k")
    case True
    with Cons.prems show ?thesis by (simp add: promises_of_Cons)
  next
    case False
    from Cons.prems have d: "distinct (promises_of pd)" and n: "promise v \<notin> set (promises_of pd)"
      and a: "promise (snd a) \<notin> set (promises_of pd)" and ne: "promise (snd a) \<noteq> promise v"
      by (auto simp: promises_of_Cons)
    from promises_update_set [of k v pd] a ne
    have "promise (snd a) \<notin> set (promises_of (AList.update k v pd))" by auto
    with Cons.IH [OF d n] False show ?thesis by (simp add: promises_of_Cons)
  qed
qed

lemma promises_delete_set: "set (promises_of (AList.delete k pd)) \<subseteq> set (promises_of pd)"
  by (auto simp: promises_of_def AList.delete_eq)

lemma promises_delete_distinct:
  "distinct (promises_of pd) \<Longrightarrow> distinct (promises_of (AList.delete k pd))"
  by (simp add: promises_of_def AList.delete_eq distinct_map_filter)

lemma promise_deleted:
  assumes d: "distinct (promises_of pd)" and m: "map_of pd k = Some p"
  shows "promise p \<notin> set (promises_of (AList.delete k pd))"
proof
  assume "promise p \<in> set (promises_of (AList.delete k pd))"
  then obtain kp where kp: "kp \<in> set pd" "fst kp \<noteq> k" "promise (snd kp) = promise p"
    by (auto simp: promises_of_def AList.delete_eq)
  from m have in': "(k, p) \<in> set pd" by (rule map_of_SomeD)
  from d have "inj_on (\<lambda>kp. promise (snd kp)) (set pd)"
    by (simp add: promises_of_def distinct_map)
  from inj_onD [OF this _ kp(1) in'] kp(3) have "kp = (k, p)" by simp
  with kp(2) show False by simp
qed

lemma promise_of_entry: "map_of pd k = Some p \<Longrightarrow> promise p \<in> set (promises_of pd)"
  by (force simp: promises_of_def dest: map_of_SomeD)

lemma view_wf_step:
  assumes wf: "view_wf v" and st: "pending_step v v'"
  shows "view_wf v'"
  using st wf
proof cases
  case (same pd np st)
  with wf show ?thesis by simp
next
  case (added pd np st k aw)
  from wf added have d: "distinct (promises_of pd)"
    and b: "\<And>p. p \<in> set (promises_of pd) \<Longrightarrow> p < np \<and> p \<notin> fst ` set st"
    and c: "\<And>p. p \<in> fst ` set st \<Longrightarrow> p < np"
    by (auto simp: view_wf_def)
  let ?pd = "AList.update k \<lparr>promise = np, awaiter = aw\<rparr> pd"
  have fresh: "np \<notin> set (promises_of pd)" using b by blast
  have 1: "distinct (promises_of ?pd)"
    using d fresh by (intro promises_update_distinct) simp_all
  have 2: "p < Suc np \<and> p \<notin> fst ` set st" if "p \<in> set (promises_of ?pd)" for p
  proof -
    from that promises_update_set [of k "\<lparr>promise = np, awaiter = aw\<rparr>" pd]
    have "p = np \<or> p \<in> set (promises_of pd)" by auto
    then show ?thesis using b c by (auto simp: less_Suc_eq)
  qed
  have 3: "p < Suc np" if "p \<in> fst ` set st" for p using that c by (auto simp: less_Suc_eq)
  from 1 2 3 show ?thesis unfolding added view_wf_def by auto
next
  case (answered pd k p np st out)
  from wf answered have d: "distinct (promises_of pd)"
    and b: "\<And>p. p \<in> set (promises_of pd) \<Longrightarrow> p < np \<and> p \<notin> fst ` set st"
    and c: "\<And>p. p \<in> fst ` set st \<Longrightarrow> p < np"
    by (auto simp: view_wf_def)
  from answered have m: "map_of pd k = Some p" by simp
  have pin: "promise p \<in> set (promises_of pd)" using m by (rule promise_of_entry)
  have gone: "promise p \<notin> set (promises_of (AList.delete k pd))"
    using d m by (rule promise_deleted)
  have 1: "distinct (promises_of (AList.delete k pd))" using d by (rule promises_delete_distinct)
  have 2: "q < np \<and> q \<notin> fst ` set (st @ [(promise p, out)])"
    if "q \<in> set (promises_of (AList.delete k pd))" for q
  proof -
    from that promises_delete_set [of k pd] have "q \<in> set (promises_of pd)" by auto
    moreover from that gone have "q \<noteq> promise p" by auto
    ultimately show ?thesis using b by auto
  qed
  have 3: "q < np" if "q \<in> fst ` set (st @ [(promise p, out)])" for q
    using that c b pin by auto
  from 1 2 3 show ?thesis unfolding answered view_wf_def by auto
next
  case (flushed pd np st err)
  from wf flushed have b: "\<And>p. p \<in> set (promises_of pd) \<Longrightarrow> p < np \<and> p \<notin> fst ` set st"
    and c: "\<And>p. p \<in> fst ` set st \<Longrightarrow> p < np"
    by (auto simp: view_wf_def)
  have 3: "q < np" if "q \<in> fst ` set (st @ map (\<lambda>kp. (promise (snd kp), Rejected err)) pd)" for q
  proof -
    from that have "q \<in> fst ` set st \<or> q \<in> set (promises_of pd)"
      by (force simp: promises_of_def image_iff)
    then show ?thesis using b c by blast
  qed
  then show ?thesis unfolding flushed view_wf_def by (simp add: promises_of_Nil)
qed

lemma no_rejection_of:
  "q \<notin> set (promises_of pd) \<Longrightarrow>
   history_of q (map (\<lambda>kp. (promise (snd kp), Rejected err)) pd) = []"
  by (induction pd) (auto simp: history_of_def promises_of_Cons)

lemma old_promise_step:
  assumes st: "pending_step (pd, np, st) (pd', np', st')"
    and old: "p < np" and gone: "p \<notin> set (promises_of pd)"
  shows "p < np' \<and> p \<notin> set (promises_of pd') \<and> history_of p st' = history_of p st"
  using st
proof cases
  case same
  with old gone show ?thesis by simp
next
  case (added k aw)
  from promises_update_set [of k "\<lparr>promise = np, awaiter = aw\<rparr>" pd] old gone added
  show ?thesis by auto
next
  case (answered k q out)
  from answered have "map_of pd k = Some q" by simp
  then have "promise q \<in> set (promises_of pd)" by (rule promise_of_entry)
  with gone have "promise q \<noteq> p" by auto
  with promises_delete_set [of k pd] old gone answered show ?thesis
    by (auto simp: history_of_def)
next
  case (flushed err)
  from no_rejection_of [OF gone, of err] old flushed show ?thesis
    by (simp add: history_of_def promises_of_Nil)
qed

lemma rejected_once:
  assumes "distinct (promises_of pd)" and "kp \<in> set pd"
  shows "history_of (promise (snd kp)) (map (\<lambda>kp. (promise (snd kp), Rejected err)) pd)
           = [(promise (snd kp), Rejected err)]"
  using assms
proof (induction pd)
  case Nil
  then show ?case by simp
next
  case (Cons a pd)
  from Cons.prems have d: "distinct (promises_of pd)"
    and a: "promise (snd a) \<notin> set (promises_of pd)" by (simp_all add: promises_of_Cons)
  show ?case
  proof (cases "kp = a")
    case True
    from no_rejection_of [OF a, of err] True show ?thesis
      by (simp add: history_of_def)
  next
    case False
    with Cons.prems have in': "kp \<in> set pd" by simp
    then have "promise (snd kp) \<in> set (promises_of pd)" by (auto simp: in_promises_of)
    with a have "promise (snd a) \<noteq> promise (snd kp)" by auto
    with Cons.IH [OF d in'] show ?thesis by (simp add: history_of_def)
  qed
qed

lemma unsettled_history:
  "view_wf (pd, np, st) \<Longrightarrow> p \<in> set (promises_of pd) \<Longrightarrow> history_of p st = []"
  by (auto simp: view_wf_def history_of_def filter_empty_conv)


lemma cdp_step_nextPromise:
  "nextPromise (cdp_step s e) = (if cdp_issues s e = None then nextPromise s else Suc (nextPromise s))"
  by (cases e) (auto simp: cdp_step_def cdp_drain_keeps cdp_defs split: option.splits)

lemma cdp_step_pending_issues:
  "cdp_issues s e = Some aw \<Longrightarrow>
   pending (cdp_step s e)
     = AList.update (nextId s) \<lparr>promise = nextPromise s, awaiter = aw\<rparr> (pending s)"
  by (cases e) (auto simp: cdp_step_pending split: if_splits)

lemma cdp_step_settled:
  "settled (effects (cdp_step s e)) =
     settled (effects s) @
     (case e of
        Message (Some m) \<Rightarrow>
          (case msg_id m of
             None \<Rightarrow> []
           | Some i \<Rightarrow>
               (case map_of (pending s) i of
                  None \<Rightarrow> []
                | Some p \<Rightarrow> [(promise p, cdp_outcome m)]))
      | Close \<Rightarrow> map (\<lambda>kp. (promise (snd kp), Rejected CdpClosed)) (pending s)
      | Error err \<Rightarrow> map (\<lambda>kp. (promise (snd kp), Rejected (TransportError err))) (pending s)
      | Disconnect \<Rightarrow> map (\<lambda>kp. (promise (snd kp), Rejected CdpDisconnected)) (pending s)
      | _ \<Rightarrow> [])"
proof (cases e)
  case (Message parsed)
  show ?thesis
  proof (cases parsed)
    case None
    with Message show ?thesis by (simp add: cdp_step_def cdp_drain_keeps on_message_def)
  next
    case (Some m)
    with Message show ?thesis
      by (simp add: cdp_step_def cdp_drain_keeps on_message_def settle_def emit_def Let_def
          cdp_outcome_def log_simps split: option.splits)
  qed
qed (auto simp: cdp_step_def cdp_drain_keeps cdp_defs log_simps split: option.splits)

lemma cdp_view_step: "pending_step (view s) (view (cdp_step s e))"
proof (cases "cdp_issues s e")
  case (Some aw)
  then have "settled (effects (cdp_step s e)) = settled (effects s)"
    by (cases e) (auto simp: cdp_step_settled split: if_splits)
  with Some show ?thesis
    by (simp add: view_def cdp_step_nextPromise cdp_step_pending_issues pending_step.added)
next
  case None
  then have np: "nextPromise (cdp_step s e) = nextPromise s" by (simp add: cdp_step_nextPromise)
  show ?thesis
  proof (cases e)
    case (Message parsed)
    show ?thesis
    proof (cases parsed)
      case None
      with Message np show ?thesis
        by (simp add: view_def cdp_step_pending cdp_step_settled pending_step.same)
    next
      case (Some m)
      show ?thesis
      proof (cases "msg_id m")
        case None
        with Message Some np show ?thesis
          by (simp add: view_def cdp_step_pending cdp_step_settled pending_step.same)
      next
        case (Some i)
        show ?thesis
        proof (cases "map_of (pending s) i")
          case None
          then have "AList.delete i (pending s) = pending s"
            by (simp add: map_of_eq_None_iff)
          with None Message \<open>parsed = Some m\<close> Some np show ?thesis
            by (simp add: view_def cdp_step_pending cdp_step_settled pending_step.same)
        next
          case (Some p)
          with Message \<open>parsed = Some m\<close> \<open>msg_id m = Some i\<close> np show ?thesis
            by (simp add: view_def cdp_step_pending cdp_step_settled pending_step.answered)
        qed
      qed
    qed
  next
    case (Send m ps)
    with None np show ?thesis
      by (simp add: view_def cdp_step_pending cdp_step_settled pending_step.same split: if_splits)
  next
    case Ping_timer
    with None np show ?thesis
      by (auto simp: view_def cdp_step_pending cdp_step_settled pending_step.same split: if_splits)
  qed (simp_all add: cdp_step_nextPromise view_def cdp_step_pending cdp_step_settled
        pending_step.same pending_step.flushed)
qed


lemma gw_handle_nextPromise:
  "nextPromise (gw_handle s ev now uuid)
     = (if gw_issues s ev = None then nextPromise s else Suc (nextPromise s))"
proof (cases ev)
  case (Frame parsed)
  show ?thesis
  proof (cases parsed)
    case None
    with Frame show ?thesis by (simp add: handleMessage_def)
  next
    case (Some fr)
    with Frame show ?thesis
      by (cases fr) (auto simp: gw_unfold split: option.splits)
  qed
qed (simp_all add: gw_unfold split: option.splits)

lemma gw_handle_pending:
  "pending (gw_handle s ev now uuid) =
     (case gw_issues s ev of
        Some aw \<Rightarrow> AList.update uuid \<lparr>promise = nextPromise s, awaiter = aw\<rparr> (pending s)
      | None \<Rightarrow>
          (case ev of
             Frame (Some (ResMsg r)) \<Rightarrow> AList.delete (res_id r) (pending s)
           | Closed c r \<Rightarrow> []
           | Stop \<Rightarrow> []
           | _ \<Rightarrow> pending s))"
proof (cases ev)
  case (Frame parsed)
  show ?thesis
  proof (cases parsed)
    case None
    with Frame show ?thesis by (simp add: handleMessage_def)
  next
    case (Some fr)
    show ?thesis
    proof (cases fr)
      case (EventMsg evt)
      with Frame Some show ?thesis by (auto simp: gw_unfold split: option.splits)
    next
      case (ResMsg r)
      have "map_of (pending s) (res_id r) = None \<Longrightarrow> AList.delete (res_id r) (pending s) = pending s"
        by (simp add: map_of_eq_None_iff)
      with Frame Some ResMsg show ?thesis
        by (simp add: handleMessage_def settle_def Let_def split: option.splits)
    next
      case OtherMsg
      with Frame Some show ?thesis by (simp add: handleMessage_def)
    qed
  qed
qed (simp_all add: gw_unfold split: option.splits)

lemma gw_handle_settled:
  "settled (effects (gw_handle s ev now uuid)) =
     settled (effects s) @
     (case ev of
        Frame (Some (ResMsg r)) \<Rightarrow>
          (case map_of (pending s) (res_id r) of
             None \<Rightarrow> []
           | Some p \<Rightarrow> [(promise p, gw_outcome r)])
      | Closed c r \<Rightarrow> map (\<lambda>kp. (promise (snd kp), Rejected (GatewayClosed c r))) (pending s)
      | Stop \<Rightarrow> map (\<lambda>kp. (promise (snd kp), Rejected GatewayStopped)) (pending s)
      | _ \<Rightarrow> [])"
proof (cases ev)
  case (Frame parsed)
  show ?thesis
  proof (cases parsed)
    case None
    with Frame show ?thesis by (simp add: handleMessage_def)
  next
    case (Some fr)
    with Frame show ?thesis
      by (cases fr) (auto simp: gw_unfold gw_outcome_def log_simps split: option.splits)
  qed
qed (simp_all add: gw_unfold log_simps split: option.splits)

lemma gw_step_nextPromise:
  "nextPromise (gw_step s (ev, now, uuid))
     = (if gw_issues s ev = None then nextPromise s else Suc (nextPromise s))"
  by (simp add: gw_step_def gw_drain_keeps gw_handle_nextPromise)

lemma gw_step_pending:
  "pending (gw_step s (ev, now, uuid)) =
     (case gw_issues s ev of
        Some aw \<Rightarrow> AList.update uuid \<lparr>promise = nextPromise s, awaiter = aw\<rparr> (pending s)
      | None \<Rightarrow>
          (case ev of
             Frame (Some (ResMsg r)) \<Rightarrow> AList.delete (res_id r) (pending s)
           | Closed c r \<Rightarrow> []
           | Stop \<Rightarrow> []
           | _ \<Rightarrow> pending s))"
  by (simp add: gw_step_def gw_drain_keeps gw_handle_pending)

lemma gw_step_settled:
  "settled (effects (gw_step s (ev, now, uuid))) =
     settled (effects s) @
     (case ev of
        Frame (Some (ResMsg r)) \<Rightarrow>
          (case map_of (pending s) (res_id r) of
             None \<Rightarrow> []
           | Some p \<Rightarrow> [(promise p, gw_outcome r)])
      | Closed c r \<Rightarrow> map (\<lambda>kp. (promise (snd kp), Rejected (GatewayClosed c r))) (pending s)
      | Stop \<Rightarrow> map (\<lambda>kp. (promise (snd kp), Rejected GatewayStopped)) (pending s)
      | _ \<Rightarrow> [])"
  by (simp add: gw_step_def gw_drain_keeps gw_handle_settled)

lemma gw_issues_settles_nothing:
  "gw_issues s ev = Some aw \<Longrightarrow> settled (effects (gw_step s (ev, now, uuid))) = settled (effects s)"
proof (cases ev)
  case (Frame parsed)
  assume a: "gw_issues s ev = Some aw"
  show ?thesis
  proof (cases parsed)
    case None
    with Frame a show ?thesis by simp
  next
    case (Some fr)
    with Frame a show ?thesis by (cases fr) (simp_all add: gw_step_settled)
  qed
qed (simp_all add: gw_step_settled)

lemma gw_view_step: "pending_step (view s) (view (gw_step s x))"
proof -
  obtain ev now uuid where x: "x = (ev, now, uuid)" by (cases x) auto
  show ?thesis
  proof (cases "gw_issues s ev")
    case (Some aw)
    with gw_issues_settles_nothing [OF Some] show ?thesis
      unfolding x by (simp add: view_def gw_step_nextPromise gw_step_pending pending_step.added)
  next
    case None
    show ?thesis
    proof (cases ev)
      case (Frame parsed)
      show ?thesis
      proof (cases parsed)
        case None
        with Frame \<open>gw_issues s ev = None\<close> show ?thesis
          unfolding x
          by (simp add: view_def gw_step_nextPromise gw_step_pending gw_step_settled
              pending_step.same)
      next
        case (Some fr)
        show ?thesis
        proof (cases fr)
          case (EventMsg evt)
          with Frame Some \<open>gw_issues s ev = None\<close> show ?thesis
            unfolding x
            by (simp add: view_def gw_step_nextPromise gw_step_pending gw_step_settled
                pending_step.same)
        next
          case (ResMsg r)
          show ?thesis
          proof (cases "map_of (pending s) (res_id r)")
            case None
            then have "AList.delete (res_id r) (pending s) = pending s"
              by (simp add: map_of_eq_None_iff)
            with None Frame Some ResMsg show ?thesis
              unfolding x
              by (simp add: view_def gw_step_nextPromise gw_step_pending gw_step_settled
                  pending_step.same)
          next
            case (Some p)
            with Frame \<open>parsed = Some fr\<close> ResMsg show ?thesis
              unfolding x
              by (simp add: view_def gw_step_nextPromise gw_step_pending gw_step_settled
                  pending_step.answered)
          qed
        next
          case OtherMsg
          with Frame Some show ?thesis
            unfolding x
            by (simp add: view_def gw_step_nextPromise gw_step_pending gw_step_settled
                pending_step.same)
        qed
      qed
    qed (use None in \<open>simp_all add: x view_def gw_step_nextPromise gw_step_pending gw_step_settled
          pending_step.same pending_step.flushed\<close>)
  qed
qed


lemma history_of_append: "history_of p (a @ b) = history_of p a @ history_of p b"
  by (simp add: history_of_def)

lemma view_wf_new_cdp: "view_wf (view new_CdpBridge)"
  by (simp add: view_wf_def view_def new_CdpBridge_def promises_of_Nil)

lemma view_wf_new_gw: "view_wf (view (new_GatewayClient u t pf))"
  by (simp add: view_wf_def view_def new_GatewayClient_def promises_of_Nil)

lemma cdp_wf_run: "view_wf (view s) \<Longrightarrow> view_wf (view (cdp_run s evs))"
  by (induction evs arbitrary: s)
     (simp_all add: cdp_run_Nil cdp_run_Cons view_wf_step [OF _ cdp_view_step])

lemma gw_wf_run: "view_wf (view s) \<Longrightarrow> view_wf (view (gw_run s xs))"
  by (induction xs arbitrary: s)
     (simp_all add: gw_run_Nil gw_run_Cons view_wf_step [OF _ gw_view_step])

lemma cdp_old_promise_run:
  "p < nextPromise s \<Longrightarrow> p \<notin> set (promises_of (pending s)) \<Longrightarrow>
   history_of p (settled (effects (cdp_run s evs))) = history_of p (settled (effects s))"
proof (induction evs arbitrary: s)
  case Nil
  show ?case by (simp add: cdp_run_Nil)
next
  case (Cons e evs)
  from cdp_view_step [of s e]
  have "pending_step (pending s, nextPromise s, settled (effects s))
      (pending (cdp_step s e), nextPromise (cdp_step s e), settled (effects (cdp_step s e)))"
    by (simp add: view_def)
  from old_promise_step [OF this Cons.prems]
  have "p < nextPromise (cdp_step s e)" "p \<notin> set (promises_of (pending (cdp_step s e)))"
    "history_of p (settled (effects (cdp_step s e))) = history_of p (settled (effects s))"
    by simp_all
  with Cons.IH [of "cdp_step s e"] show ?case by (simp add: cdp_run_Cons)
qed

lemma gw_old_promise_run:
  "p < nextPromise s \<Longrightarrow> p \<notin> set (promises_of (pending s)) \<Longrightarrow>
   history_of p (settled (effects (gw_run s xs))) = history_of p (settled (effects s))"
proof (induction xs arbitrary: s)
  case Nil
  show ?case by (simp add: gw_run_Nil)
next
  case (Cons x xs)
  from gw_view_step [of s x]
  have "pending_step (pending s, nextPromise s, settled (effects s))
      (pending (gw_step s x), nextPromise (gw_step s x), settled (effects (gw_step s x)))"
    by (simp add: view_def)
  from old_promise_step [OF this Cons.prems]
  have "p < nextPromise (gw_step s x)" "p \<notin> set (promises_of (pending (gw_step s x)))"
    "history_of p (settled (effects (gw_step s x))) = history_of p (settled (effects s))"
    by simp_all
  with Cons.IH [of "gw_step s x"] show ?case by (simp add: gw_run_Cons)
qed

text \<open>What a close does to an entry of the pending map, in a well-formed state.\<close>

lemma flushed_entry:
  assumes wf: "view_wf (pd, np, st)" and kp: "kp \<in> set pd"
  shows "history_of (promise (snd kp)) (st @ map (\<lambda>kp. (promise (snd kp), Rejected err)) pd)
           = [(promise (snd kp), Rejected err)]"
    and "promise (snd kp) < np"
proof -
  from kp have pin: "promise (snd kp) \<in> set (promises_of pd)" by (auto simp: in_promises_of)
  from wf have d: "distinct (promises_of pd)" by (simp add: view_wf_def)
  from unsettled_history [OF wf pin] rejected_once [OF d kp, of err]
  show "history_of (promise (snd kp)) (st @ map (\<lambda>kp. (promise (snd kp), Rejected err)) pd)
           = [(promise (snd kp), Rejected err)]"
    by (simp add: history_of_append)
  from wf pin show "promise (snd kp) < np" by (auto simp: view_wf_def)
qed

lemma update_fresh: "k \<notin> fst ` set al \<Longrightarrow> AList.update k v al = al @ [(k, v)]"
  by (induction al) auto

lemma promise_kept_or_answered:
  assumes d: "distinct (map fst pd)" and m: "map_of pd k = Some p"
    and q: "q \<in> set (promises_of pd)"
  shows "q = promise p \<or> q \<in> set (promises_of (AList.delete k pd))"
proof -
  from q obtain kp where kp: "kp \<in> set pd" "promise (snd kp) = q" by (auto simp: in_promises_of)
  show ?thesis
  proof (cases "fst kp = k")
    case True
    with kp(1) have "(k, snd kp) \<in> set pd" by (cases kp) auto
    with d have "map_of pd k = Some (snd kp)" by (rule map_of_is_SomeI)
    with m kp(2) show ?thesis by simp
  next
    case False
    with kp(1) have "kp \<in> set (AList.delete k pd)" by (auto simp: AList.delete_eq)
    with kp(2) show ?thesis by (auto simp: in_promises_of)
  qed
qed

lemma accounted_step:
  assumes acc: "accounted (pd, np, st)" and st: "pending_step (pd, np, st) (pd', np', st')"
    and fresh: "np' = Suc np \<longrightarrow>
      (\<exists>k aw. k \<notin> fst ` set pd \<and> pd' = AList.update k \<lparr>promise = np, awaiter = aw\<rparr> pd)"
  shows "accounted (pd', np', st')"
proof -
  from acc have d: "distinct (map fst pd)"
    and a: "\<And>p. p < np \<Longrightarrow> p \<in> set (promises_of pd) \<or> p \<in> fst ` set st"
    by (auto simp: accounted_def)
  from st show ?thesis
  proof cases
    case same
    with acc show ?thesis by simp
  next
    case (added k0 aw0)
    with fresh obtain k aw where k: "k \<notin> fst ` set pd"
      and pd': "pd' = AList.update k \<lparr>promise = np, awaiter = aw\<rparr> pd" by blast
    from k pd' have app: "pd' = pd @ [(k, \<lparr>promise = np, awaiter = aw\<rparr>)]"
      by (simp add: update_fresh)
    from added have np': "np' = Suc np" and st': "st' = st" by simp_all
    have 1: "distinct (map fst pd')" unfolding pd' using d by (rule distinct_update)
    have 2: "p \<in> set (promises_of pd') \<or> p \<in> fst ` set st'" if "p < np'" for p
    proof (cases "p = np")
      case True
      then show ?thesis unfolding app by (simp add: promises_of_def)
    next
      case False
      with that np' have "p < np" by simp
      from a [OF this] st' show ?thesis unfolding app by (auto simp: promises_of_def)
    qed
    from 1 2 show ?thesis unfolding accounted_def by simp
  next
    case (answered k p out)
    from answered have m: "map_of pd k = Some p" by simp
    have 1: "distinct (map fst pd')" unfolding answered using d by (rule distinct_delete)
    have 2: "q \<in> set (promises_of pd') \<or> q \<in> fst ` set st'" if "q < np'" for q
    proof -
      from that answered have "q < np" by simp
      from a [OF this] show ?thesis
      proof
        assume "q \<in> set (promises_of pd)"
        from promise_kept_or_answered [OF d m this] answered show ?thesis by auto
      next
        assume "q \<in> fst ` set st"
        with answered show ?thesis by auto
      qed
    qed
    from 1 2 show ?thesis unfolding accounted_def by simp
  next
    case (flushed err)
    have 2: "q \<in> set (promises_of pd') \<or> q \<in> fst ` set st'" if "q < np'" for q
    proof -
      from that flushed have "q < np" by simp
      from a [OF this] flushed show ?thesis by (force simp: promises_of_def image_iff)
    qed
    with flushed show ?thesis unfolding accounted_def by simp
  qed
qed

lemma cdp_accounted_step:
  assumes acc: "accounted (view s)" and kb: "keys_between lo s"
  shows "accounted (view (cdp_step s e))"
proof -
  have st: "pending_step (pending s, nextPromise s, settled (effects s))
      (pending (cdp_step s e), nextPromise (cdp_step s e), settled (effects (cdp_step s e)))"
    using cdp_view_step [of s e] by (simp add: view_def)
  have fresh: "nextPromise (cdp_step s e) = Suc (nextPromise s) \<longrightarrow>
      (\<exists>k aw. k \<notin> fst ` set (pending s)
         \<and> pending (cdp_step s e) = AList.update k \<lparr>promise = nextPromise s, awaiter = aw\<rparr> (pending s))"
  proof
    assume "nextPromise (cdp_step s e) = Suc (nextPromise s)"
    then obtain aw where "cdp_issues s e = Some aw"
      by (cases "cdp_issues s e") (auto simp: cdp_step_nextPromise)
    then have "pending (cdp_step s e)
        = AList.update (nextId s) \<lparr>promise = nextPromise s, awaiter = aw\<rparr> (pending s)"
      by (rule cdp_step_pending_issues)
    moreover from kb have "nextId s \<notin> fst ` set (pending s)"
      by (auto simp: keys_between_def)
    ultimately show "\<exists>k aw. k \<notin> fst ` set (pending s)
         \<and> pending (cdp_step s e) = AList.update k \<lparr>promise = nextPromise s, awaiter = aw\<rparr> (pending s)"
      by blast
  qed
  from accounted_step [OF _ st fresh] acc show ?thesis by (simp add: view_def)
qed

lemma cdp_accounted_run:
  "accounted (view s) \<Longrightarrow> keys_between lo s \<Longrightarrow> accounted (view (cdp_run s evs))"
  by (induction evs arbitrary: s)
     (simp_all add: cdp_run_Nil cdp_run_Cons cdp_accounted_step keys_between_step)

lemma gw_accounted_run:
  "accounted (view s) \<Longrightarrow> gw_fresh_uuids s xs \<Longrightarrow> accounted (view (gw_run s xs))"
proof (induction xs arbitrary: s)
  case Nil
  then show ?case by (simp add: gw_run_Nil)
next
  case (Cons x xs)
  obtain ev now uuid where x: "x = (ev, now, uuid)" by (cases x) auto
  have st: "pending_step (pending s, nextPromise s, settled (effects s))
      (pending (gw_step s x), nextPromise (gw_step s x), settled (effects (gw_step s x)))"
    using gw_view_step [of s x] by (simp add: view_def)
  have fresh: "nextPromise (gw_step s x) = Suc (nextPromise s) \<longrightarrow>
      (\<exists>k aw. k \<notin> fst ` set (pending s)
         \<and> pending (gw_step s x) = AList.update k \<lparr>promise = nextPromise s, awaiter = aw\<rparr> (pending s))"
  proof
    assume "nextPromise (gw_step s x) = Suc (nextPromise s)"
    then obtain aw where aw: "gw_issues s ev = Some aw"
      unfolding x by (cases "gw_issues s ev") (auto simp: gw_step_nextPromise)
    then have "pending (gw_step s x)
        = AList.update uuid \<lparr>promise = nextPromise s, awaiter = aw\<rparr> (pending s)"
      unfolding x by (simp add: gw_step_pending)
    moreover from Cons.prems(2) aw have "uuid \<notin> fst ` set (pending s)"
      unfolding x by (simp add: map_of_eq_None_iff)
    ultimately show "\<exists>k aw. k \<notin> fst ` set (pending s)
         \<and> pending (gw_step s x) = AList.update k \<lparr>promise = nextPromise s, awaiter = aw\<rparr> (pending s)"
      by blast
  qed
  from accounted_step [OF _ st fresh] Cons.prems(1)
  have "accounted (view (gw_step s x))" by (simp add: view_def)
  from Cons.IH [OF this] Cons.prems(2) show ?case by (simp add: gw_run_Cons)
qed

lemma accounted_new_cdp: "accounted (view new_CdpBridge)"
  by (simp add: accounted_def view_def new_CdpBridge_def)

lemma accounted_new_gw: "accounted (view (new_GatewayClient u t pf))"
  by (simp add: accounted_def view_def new_GatewayClient_def)

lemma keys_between_new: "keys_between 1 new_CdpBridge"
  by (simp add: keys_between_def new_CdpBridge_def)

lemma unsettled_is_pending:
  assumes "accounted (pd, np, st)" and "p < np" and "history_of p st = []"
  shows "\<exists>kp \<in> set pd. promise (snd kp) = p"
proof -
  from assms(3) have "p \<notin> fst ` set st"
    by (auto simp: history_of_def filter_empty_conv)
  with assms(1,2) have "p \<in> set (promises_of pd)" by (auto simp: accounted_def)
  then show ?thesis by (simp add: in_promises_of)
qed

text \<open>
  C3. Take any state that a connection reaches from its construction and any entry of
  its pending map, and let the transport close. The map is then empty, and from then
  on, whatever happens later, the settlements of the promise of that entry are exactly
  one: the rejection with the closed error; it is never resolved and never rejected
  again. The same holds for every promise that has been created and is not settled
  when the close arrives (for the gateway client, in runs where no UUID is drawn while
  it is the key of a pending request): each call that is pending is an entry of the
  map. Stated for the bridge and for the gateway client.
\<close>

theorem close_rejects_each_pending_call_once:
  "(s = cdp_run new_CdpBridge hist \<and> kp \<in> set (pending s) \<longrightarrow>
       pending (cdp_run s [Close]) = []
     \<and> (\<forall>ys. history_of (promise (snd kp)) (settled (effects (cdp_run s (Close # ys))))
               = [(promise (snd kp), Rejected CdpClosed)]))
   \<and> (s = cdp_run new_CdpBridge hist \<and> p < nextPromise s
        \<and> history_of p (settled (effects s)) = [] \<longrightarrow>
       (\<forall>ys. history_of p (settled (effects (cdp_run s (Close # ys))))
               = [(p, Rejected CdpClosed)]))
   \<and> (g = gw_run (new_GatewayClient u t pf) ghist \<and> kq \<in> set (pending g) \<longrightarrow>
       pending (gw_run g [(Closed code reason, now, uuid)]) = []
     \<and> (\<forall>ys. history_of (promise (snd kq))
                 (settled (effects (gw_run g ((Closed code reason, now, uuid) # ys))))
               = [(promise (snd kq), Rejected (GatewayClosed code reason))]))
   \<and> (g = gw_run (new_GatewayClient u t pf) ghist \<and> gw_fresh_uuids (new_GatewayClient u t pf) ghist
        \<and> q < nextPromise g \<and> history_of q (settled (effects g)) = [] \<longrightarrow>
       (\<forall>ys. history_of q (settled (effects (gw_run g ((Closed code reason, now, uuid) # ys))))
               = [(q, Rejected (GatewayClosed code reason))]))"
proof -
  have 1: "pending (cdp_run s [Close]) = []
     \<and> (\<forall>ys. history_of (promise (snd kp)) (settled (effects (cdp_run s (Close # ys))))
               = [(promise (snd kp), Rejected CdpClosed)])"
    if "s = cdp_run new_CdpBridge hist" "kp \<in> set (pending s)" for s kp
  proof -
    have wf: "view_wf (pending s, nextPromise s, settled (effects s))"
      using cdp_wf_run [OF view_wf_new_cdp, of hist] unfolding that(1) by (simp add: view_def)
    note kp = that(2)
    let ?s = "cdp_step s Close"
    have p: "pending ?s = []" by (simp add: cdp_step_pending)
    have h: "history_of (promise (snd kp)) (settled (effects ?s))
        = [(promise (snd kp), Rejected CdpClosed)]"
      using flushed_entry(1) [OF wf kp] by (simp add: cdp_step_settled)
    have n: "promise (snd kp) < nextPromise ?s"
      using flushed_entry(2) [OF wf kp] by (simp add: cdp_step_nextPromise)
    have "history_of (promise (snd kp)) (settled (effects (cdp_run ?s ys)))
        = [(promise (snd kp), Rejected CdpClosed)]" for ys
      using cdp_old_promise_run [OF n, of ys] p h by (simp add: promises_of_Nil)
    with p show ?thesis by (simp add: cdp_run_Cons cdp_run_Nil)
  qed
  have 2: "\<forall>ys. history_of p (settled (effects (cdp_run s (Close # ys))))
               = [(p, Rejected CdpClosed)]"
    if "s = cdp_run new_CdpBridge hist" "p < nextPromise s"
      "history_of p (settled (effects s)) = []"
  proof -
    have "accounted (pending s, nextPromise s, settled (effects s))"
      using cdp_accounted_run [OF accounted_new_cdp keys_between_new, of hist]
      unfolding that(1) by (simp add: view_def)
    from unsettled_is_pending [OF this that(2,3)]
    obtain kp where "kp \<in> set (pending s)" "promise (snd kp) = p" by blast
    with 1 [OF that(1), of kp] show ?thesis by simp
  qed
  have 3: "pending (gw_run g [(Closed code reason, now, uuid)]) = []
     \<and> (\<forall>ys. history_of (promise (snd kq))
                 (settled (effects (gw_run g ((Closed code reason, now, uuid) # ys))))
               = [(promise (snd kq), Rejected (GatewayClosed code reason))])"
    if "g = gw_run (new_GatewayClient u t pf) ghist" "kq \<in> set (pending g)" for g kq
  proof -
    have wf: "view_wf (pending g, nextPromise g, settled (effects g))"
      using gw_wf_run [OF view_wf_new_gw, of u t pf ghist] unfolding that(1) by (simp add: view_def)
    note kq = that(2)
    let ?g = "gw_step g (Closed code reason, now, uuid)"
    have p: "pending ?g = []" by (simp add: gw_step_pending)
    have h: "history_of (promise (snd kq)) (settled (effects ?g))
        = [(promise (snd kq), Rejected (GatewayClosed code reason))]"
      using flushed_entry(1) [OF wf kq] by (simp add: gw_step_settled)
    have n: "promise (snd kq) < nextPromise ?g"
      using flushed_entry(2) [OF wf kq] by (simp add: gw_step_nextPromise)
    have "history_of (promise (snd kq)) (settled (effects (gw_run ?g ys)))
        = [(promise (snd kq), Rejected (GatewayClosed code reason))]" for ys
      using gw_old_promise_run [OF n, of ys] p h by (simp add: promises_of_Nil)
    with p show ?thesis by (simp add: gw_run_Cons gw_run_Nil)
  qed
  have 4: "\<forall>ys. history_of q (settled (effects (gw_run g ((Closed code reason, now, uuid) # ys))))
               = [(q, Rejected (GatewayClosed code reason))]"
    if "g = gw_run (new_GatewayClient u t pf) ghist" "gw_fresh_uuids (new_GatewayClient u t pf) ghist"
      "q < nextPromise g" "history_of q (settled (effects g)) = []"
  proof -
    have "accounted (pending g, nextPromise g, settled (effects g))"
      using gw_accounted_run [OF accounted_new_gw that(2)]
      unfolding that(1) by (simp add: view_def)
    from unsettled_is_pending [OF this that(3,4)]
    obtain kq where "kq \<in> set (pending g)" "promise (snd kq) = q" by blast
    with 3 [OF that(1), of kq] show ?thesis by simp
  qed
  from 1 2 3 4 show ?thesis by blast
qed

lemma cdp_keeps_step:
  "cdp_keeps i e \<Longrightarrow> i < nextId s \<Longrightarrow> map_of (pending (cdp_step s e)) i = map_of (pending s) i"
proof (cases e)
  case (Message parsed)
  assume "cdp_keeps i e"
  with Message show ?thesis
    by (cases parsed) (auto simp: cdp_step_pending split: option.splits)
qed (auto simp: cdp_step_pending update_conv')

lemma cdp_keeps_run:
  "list_all (cdp_keeps i) evs \<Longrightarrow> i < nextId s
   \<Longrightarrow> map_of (pending (cdp_run s evs)) i = map_of (pending s) i"
proof (induction evs arbitrary: s)
  case Nil
  show ?case by (simp add: cdp_run_Nil)
next
  case (Cons e evs)
  from Cons.prems have k: "cdp_keeps i e" and ks: "list_all (cdp_keeps i) evs" by simp_all
  from Cons.prems(2) cdp_step_nextId_mono [of s e] have "i < nextId (cdp_step s e)" by simp
  from Cons.IH [OF ks this] cdp_keeps_step [OF k Cons.prems(2)]
  show ?case by (simp add: cdp_run_Cons)
qed

lemma gw_keeps_step:
  "gw_keeps i x \<Longrightarrow> map_of (pending (gw_step s x)) i = map_of (pending s) i"
proof -
  assume k: "gw_keeps i x"
  obtain ev now uuid where x: "x = (ev, now, uuid)" by (cases x) auto
  show ?thesis
  proof (cases ev)
    case (Frame parsed)
    show ?thesis
    proof (cases parsed)
      case None
      with Frame x show ?thesis by (simp add: gw_step_pending)
    next
      case (Some fr)
      with Frame x k show ?thesis
        by (cases fr) (auto simp: gw_step_pending update_conv')
    qed
  qed (use k x in \<open>auto simp: gw_step_pending update_conv'\<close>)
qed

lemma gw_keeps_run:
  "list_all (gw_keeps i) xs \<Longrightarrow> map_of (pending (gw_run s xs)) i = map_of (pending s) i"
  by (induction xs arbitrary: s) (simp_all add: gw_run_Nil gw_run_Cons gw_keeps_step)

text \<open>The answer to a pending request, in a well-formed state.\<close>

lemma answered_entry:
  assumes wf: "view_wf (pd, np, st)" and m: "map_of pd k = Some e"
  shows "history_of (promise e) (st @ [(promise e, out)]) = [(promise e, out)]"
    and "promise e < np"
    and "promise e \<notin> set (promises_of (AList.delete k pd))"
proof -
  from m have pin: "promise e \<in> set (promises_of pd)" by (rule promise_of_entry)
  from unsettled_history [OF wf pin]
  show "history_of (promise e) (st @ [(promise e, out)]) = [(promise e, out)]"
    by (simp add: history_of_def)
  from wf pin show "promise e < np" by (auto simp: view_wf_def)
  from wf have "distinct (promises_of pd)" by (simp add: view_wf_def)
  then show "promise e \<notin> set (promises_of (AList.delete k pd))" using m by (rule promise_deleted)
qed

lemma cdp_call_answered:
  assumes reach: "s = cdp_run new_CdpBridge hist" and op: "ws s = Some OPEN"
    and keeps: "list_all (cdp_keeps (nextId s)) evs" and mi: "msg_id m = Some (nextId s)"
  shows "snd (send s Caller method params) = Inr (nextPromise s)"
    and "sent_ids (effects (cdp_run s [Send method params])) = sent_ids (effects s) @ [nextId s]"
    and "map_of (pending (cdp_run s (Send method params # evs))) (nextId s)
           = Some \<lparr>promise = nextPromise s, awaiter = Caller\<rparr>"
    and "history_of (nextPromise s) (settled (effects (cdp_run s (Send method params # evs)))) = []"
    and "history_of (nextPromise s)
           (settled (effects (cdp_run s (Send method params # evs @ Message (Some m) # ys))))
           = [(nextPromise s, cdp_outcome m)]"
proof -
  let ?i = "nextId s" and ?p = "nextPromise s"
  let ?s1 = "cdp_step s (Send method params)"
  let ?s2 = "cdp_run ?s1 evs"
  let ?s3 = "cdp_step ?s2 (Message (Some m))"
  show "snd (send s Caller method params) = Inr ?p"
    using op by (simp add: send_def emit_def Let_def)
  show "sent_ids (effects (cdp_run s [Send method params])) = sent_ids (effects s) @ [?i]"
    using op by (simp add: cdp_run_Cons cdp_run_Nil cdp_step_sent_ids)
  have p1: "map_of (pending ?s1) ?i = Some \<lparr>promise = ?p, awaiter = Caller\<rparr>"
    using op by (simp add: cdp_step_pending update_conv')
  have n1: "?i < nextId ?s1" using op by (simp add: cdp_step_nextId)
  have p2: "map_of (pending ?s2) ?i = Some \<lparr>promise = ?p, awaiter = Caller\<rparr>"
    using cdp_keeps_run [OF keeps n1] p1 by simp
  then show "map_of (pending (cdp_run s (Send method params # evs))) ?i
           = Some \<lparr>promise = ?p, awaiter = Caller\<rparr>"
    by (simp add: cdp_run_Cons)
  have "view_wf (view s)" unfolding reach by (rule cdp_wf_run [OF view_wf_new_cdp])
  then have "view_wf (view ?s1)" by (rule view_wf_step [OF _ cdp_view_step])
  then have "view_wf (view ?s2)" by (rule cdp_wf_run)
  then have wf2: "view_wf (pending ?s2, nextPromise ?s2, settled (effects ?s2))"
    by (simp add: view_def)
  from promise_of_entry [OF p2] have "?p \<in> set (promises_of (pending ?s2))" by simp
  from unsettled_history [OF wf2 this]
  show "history_of ?p (settled (effects (cdp_run s (Send method params # evs)))) = []"
    by (simp add: cdp_run_Cons)
  have h3: "history_of ?p (settled (effects ?s3)) = [(?p, cdp_outcome m)]"
    using answered_entry(1) [OF wf2 p2, of "cdp_outcome m"] mi p2
    by (simp add: cdp_step_settled)
  have n3: "?p < nextPromise ?s3"
    using answered_entry(2) [OF wf2 p2] by (simp add: cdp_step_nextPromise)
  have g3: "?p \<notin> set (promises_of (pending ?s3))"
    using answered_entry(3) [OF wf2 p2] mi by (simp add: cdp_step_pending)
  from cdp_old_promise_run [OF n3 g3, of ys] h3
  show "history_of ?p
           (settled (effects (cdp_run s (Send method params # evs @ Message (Some m) # ys))))
           = [(?p, cdp_outcome m)]"
    by (simp add: cdp_run_Cons cdp_run_append)
qed

lemma gw_call_answered:
  assumes reach: "g = gw_run (new_GatewayClient u t pf) ghist" and op: "ws g = Some OPEN"
    and keeps: "list_all (gw_keeps uuid) xs" and ri: "res_id r = uuid"
  shows "snd (request g Caller method params uuid) = Inr (nextPromise g)"
    and "sent_ids (effects (gw_run g [(Request method params, now, uuid)]))
           = sent_ids (effects g) @ [uuid]"
    and "map_of (pending (gw_run g ((Request method params, now, uuid) # xs))) uuid
           = Some \<lparr>promise = nextPromise g, awaiter = Caller\<rparr>"
    and "history_of (nextPromise g)
           (settled (effects (gw_run g ((Request method params, now, uuid) # xs)))) = []"
    and "history_of (nextPromise g)
           (settled (effects (gw_run g ((Request method params, now, uuid) # xs
               @ (Frame (Some (ResMsg r)), now', uuid') # ys))))
           = [(nextPromise g, gw_outcome r)]"
proof -
  let ?p = "nextPromise g"
  let ?s1 = "gw_step g (Request method params, now, uuid)"
  let ?s2 = "gw_run ?s1 xs"
  let ?s3 = "gw_step ?s2 (Frame (Some (ResMsg r)), now', uuid')"
  show "snd (request g Caller method params uuid) = Inr ?p"
    using op by (simp add: request_def emit_def Let_def)
  show "sent_ids (effects (gw_run g [(Request method params, now, uuid)]))
           = sent_ids (effects g) @ [uuid]"
    using op
    by (simp add: gw_run_Cons gw_run_Nil gw_step_def gw_drain_keeps request_def emit_def
        Let_def sent_ids_append)
  have p1: "map_of (pending ?s1) uuid = Some \<lparr>promise = ?p, awaiter = Caller\<rparr>"
    using op by (simp add: gw_step_pending update_conv')
  have p2: "map_of (pending ?s2) uuid = Some \<lparr>promise = ?p, awaiter = Caller\<rparr>"
    using gw_keeps_run [OF keeps] p1 by simp
  then show "map_of (pending (gw_run g ((Request method params, now, uuid) # xs))) uuid
           = Some \<lparr>promise = ?p, awaiter = Caller\<rparr>"
    by (simp add: gw_run_Cons)
  have "view_wf (view g)" unfolding reach by (rule gw_wf_run [OF view_wf_new_gw])
  then have "view_wf (view ?s1)" by (rule view_wf_step [OF _ gw_view_step])
  then have "view_wf (view ?s2)" by (rule gw_wf_run)
  then have wf2: "view_wf (pending ?s2, nextPromise ?s2, settled (effects ?s2))"
    by (simp add: view_def)
  from promise_of_entry [OF p2] have "?p \<in> set (promises_of (pending ?s2))" by simp
  from unsettled_history [OF wf2 this]
  show "history_of ?p (settled (effects (gw_run g ((Request method params, now, uuid) # xs)))) = []"
    by (simp add: gw_run_Cons)
  have p2': "map_of (pending ?s2) (res_id r) = Some \<lparr>promise = ?p, awaiter = Caller\<rparr>"
    using p2 ri by simp
  have h3: "history_of ?p (settled (effects ?s3)) = [(?p, gw_outcome r)]"
    using answered_entry(1) [OF wf2 p2', of "gw_outcome r"] p2'
    by (simp add: gw_step_settled)
  have n3: "?p < nextPromise ?s3"
    using answered_entry(2) [OF wf2 p2'] by (simp add: gw_step_nextPromise)
  have g3: "?p \<notin> set (promises_of (pending ?s3))"
    using answered_entry(3) [OF wf2 p2'] by (simp add: gw_step_pending)
  from gw_old_promise_run [OF n3 g3, of ys] h3
  show "history_of ?p
           (settled (effects (gw_run g ((Request method params, now, uuid) # xs
               @ (Frame (Some (ResMsg r)), now', uuid') # ys))))
           = [(?p, gw_outcome r)]"
    by (simp add: gw_run_Cons gw_run_def)
qed

lemma handleMessage_unknown:
  "map_of (pending s) (res_id r) = None \<Longrightarrow> handleMessage s (Some (ResMsg r)) now uuid = s"
  by (simp add: handleMessage_def)

text \<open>
  C1. A response that carries an error is to reject the call with the matching id.
  The \<open>message\<close> handler of the bridge tests \<open>parsed.error?.message\<close> for truthiness:
  with two calls pending, the response \<open>{"id": 1, "error": {"message": ""}}\<close> and the
  response \<open>{"id": 1, "error": {}}\<close> both resolve the first call with \<open>undefined\<close>,
  whereas the same response with a message that is not empty rejects it with that
  message. \<open>handleMessage\<close> of the gateway client, on a response that is not \<open>ok\<close> and
  whose error has no message, rejects the pending request with \<open>"unknown error"\<close>.
\<close>

theorem error_response_resolves_the_call:
  "map_of (pending (cdp_run new_CdpBridge cdp_history)) 1 = Some \<lparr>promise = 0, awaiter = Caller\<rparr>
   \<and> msg_error error_reply_empty_message = Some \<lparr>message = Some ''''\<rparr>
   \<and> settled (effects (cdp_step (cdp_run new_CdpBridge cdp_history)
                          (Message (Some error_reply_empty_message))))
       = [(0, Resolved JUndefined)]
   \<and> msg_error error_reply_no_message = Some \<lparr>message = None\<rparr>
   \<and> settled (effects (cdp_step (cdp_run new_CdpBridge cdp_history)
                          (Message (Some error_reply_no_message))))
       = [(0, Resolved JUndefined)]
   \<and> settled (effects (cdp_step (cdp_run new_CdpBridge cdp_history)
                          (Message (Some error_reply_with_message))))
       = [(0, Rejected (ServerError ''No node with given id''))]
   \<and> map_of (pending (gw_run gw_fresh gw_history)) ''r1''
       = Some \<lparr>promise = 0, awaiter = Caller\<rparr>
   \<and> settled (effects (gw_step (gw_run gw_fresh gw_history)
                          (Frame (Some (ResMsg gw_error_no_message)), 9, ''r4'')))
       = [(0, Rejected (ServerError ''unknown error''))]"
proof -
  have bridge:
    "map_of (pending (cdp_run new_CdpBridge cdp_history)) 1 = Some \<lparr>promise = 0, awaiter = Caller\<rparr>
     \<and> msg_error error_reply_empty_message = Some \<lparr>message = Some ''''\<rparr>
     \<and> settled (effects (cdp_step (cdp_run new_CdpBridge cdp_history)
                            (Message (Some error_reply_empty_message))))
         = [(0, Resolved JUndefined)]
     \<and> msg_error error_reply_no_message = Some \<lparr>message = None\<rparr>
     \<and> settled (effects (cdp_step (cdp_run new_CdpBridge cdp_history)
                            (Message (Some error_reply_no_message))))
         = [(0, Resolved JUndefined)]
     \<and> settled (effects (cdp_step (cdp_run new_CdpBridge cdp_history)
                            (Message (Some error_reply_with_message))))
         = [(0, Rejected (ServerError ''No node with given id''))]"
    by (simp add: cdp_history_def error_reply_empty_message_def error_reply_no_message_def
        error_reply_with_message_def error_message_def cdp_eval)
  have gateway:
    "map_of (pending (gw_run gw_fresh gw_history)) ''r1''
         = Some \<lparr>promise = 0, awaiter = Caller\<rparr>
     \<and> settled (effects (gw_step (gw_run gw_fresh gw_history)
                            (Frame (Some (ResMsg gw_error_no_message)), 9, ''r4'')))
         = [(0, Rejected (ServerError ''unknown error''))]"
    by (simp add: gw_history_def gw_fresh_def gw_error_no_message_def res_message_def gw_eval)
  from bridge gateway show ?thesis by simp
qed

text \<open>
  The correlation itself. In any state that a connection reaches from its construction
  and in which the socket is open, a call returns a promise and sends its request with
  a correlation id (the id counter of the bridge, the UUID drawn for the gateway
  client). While the run contains neither a response with this id nor a close, error or
  teardown (and, for the gateway client, no event draws the same UUID again), the
  request stays pending and its promise unsettled, whatever other calls are made and
  whatever other responses arrive, in any order. The response with this id settles the
  promise, with the outcome of that response, and nothing settles it again. A response
  whose id is not in the pending map changes nothing. For the bridge the outcome is the
  rejection with the message of the error when that message is not empty, and the
  resolution with the result when the response has no error; for the gateway client it
  is the resolution with the payload when \<open>ok\<close> is set and otherwise the rejection,
  with the message of the error when it has one and with \<open>"unknown error"\<close> when it
  has none.
\<close>

lemma responses_settle_by_correlation_id:
  "(s = cdp_run new_CdpBridge hist \<and> ws s = Some OPEN
      \<and> list_all (cdp_keeps (nextId s)) evs \<and> msg_id m = Some (nextId s) \<longrightarrow>
        snd (send s Caller meth params) = Inr (nextPromise s)
      \<and> sent_ids (effects (cdp_run s [Send meth params])) = sent_ids (effects s) @ [nextId s]
      \<and> map_of (pending (cdp_run s (Send meth params # evs))) (nextId s)
          = Some \<lparr>promise = nextPromise s, awaiter = Caller\<rparr>
      \<and> history_of (nextPromise s)
          (settled (effects (cdp_run s (Send meth params # evs)))) = []
      \<and> (\<forall>ys. history_of (nextPromise s)
                 (settled (effects (cdp_run s (Send meth params # evs @ Message (Some m) # ys))))
               = [(nextPromise s, cdp_outcome m)]))
   \<and> (msg_id m' = Some j \<and> map_of (pending b) j = None \<longrightarrow> on_message b (Some m') = b)
   \<and> (msg_error m = Some \<lparr>message = Some msg\<rparr> \<and> msg \<noteq> [] \<longrightarrow>
        cdp_outcome m = Rejected (ServerError msg))
   \<and> (msg_error m = None \<longrightarrow> cdp_outcome m = Resolved (msg_result m))
   \<and> (g = gw_run (new_GatewayClient u t pf) ghist \<and> ws g = Some OPEN
      \<and> list_all (gw_keeps uuid) xs \<and> res_id r = uuid \<longrightarrow>
        snd (request g Caller gmethod gparams uuid) = Inr (nextPromise g)
      \<and> sent_ids (effects (gw_run g [(Request gmethod gparams, now, uuid)]))
          = sent_ids (effects g) @ [uuid]
      \<and> map_of (pending (gw_run g ((Request gmethod gparams, now, uuid) # xs))) uuid
          = Some \<lparr>promise = nextPromise g, awaiter = Caller\<rparr>
      \<and> history_of (nextPromise g)
          (settled (effects (gw_run g ((Request gmethod gparams, now, uuid) # xs)))) = []
      \<and> (\<forall>zs. history_of (nextPromise g)
                 (settled (effects (gw_run g ((Request gmethod gparams, now, uuid) # xs
                    @ (Frame (Some (ResMsg r)), now', uuid') # zs))))
               = [(nextPromise g, gw_outcome r)]))
   \<and> (map_of (pending c) (res_id r') = None \<longrightarrow>
        handleMessage c (Some (ResMsg r')) now uuid = c)
   \<and> (ok r \<longrightarrow> gw_outcome r = Resolved (res_payload r))
   \<and> (\<not> ok r \<and> res_error r = Some \<lparr>message = Some msg'\<rparr> \<longrightarrow>
        gw_outcome r = Rejected (ServerError msg'))
   \<and> (\<not> ok r \<and> res_error r = Some \<lparr>message = None\<rparr> \<longrightarrow>
        gw_outcome r = Rejected (ServerError ''unknown error''))
   \<and> (\<not> ok r \<and> res_error r = None \<longrightarrow>
        gw_outcome r = Rejected (ServerError ''unknown error''))"
proof -
  have 1: "snd (send s Caller meth params) = Inr (nextPromise s)
      \<and> sent_ids (effects (cdp_run s [Send meth params])) = sent_ids (effects s) @ [nextId s]
      \<and> map_of (pending (cdp_run s (Send meth params # evs))) (nextId s)
          = Some \<lparr>promise = nextPromise s, awaiter = Caller\<rparr>
      \<and> history_of (nextPromise s)
          (settled (effects (cdp_run s (Send meth params # evs)))) = []
      \<and> (\<forall>ys. history_of (nextPromise s)
                 (settled (effects (cdp_run s (Send meth params # evs @ Message (Some m) # ys))))
               = [(nextPromise s, cdp_outcome m)])"
    if "s = cdp_run new_CdpBridge hist \<and> ws s = Some OPEN
      \<and> list_all (cdp_keeps (nextId s)) evs \<and> msg_id m = Some (nextId s)"
  proof -
    from that have a: "s = cdp_run new_CdpBridge hist" and b: "ws s = Some OPEN"
      and c: "list_all (cdp_keeps (nextId s)) evs" and d: "msg_id m = Some (nextId s)"
      by blast+
    from cdp_call_answered [OF a b c d] show ?thesis by blast
  qed
  have 2: "msg_id m' = Some j \<and> map_of (pending b) j = None \<longrightarrow> on_message b (Some m') = b"
    by (simp add: on_message_unknown)
  have 3: "msg_error m = Some \<lparr>message = Some msg\<rparr> \<and> msg \<noteq> [] \<longrightarrow>
        cdp_outcome m = Rejected (ServerError msg)"
    by (simp add: cdp_outcome_def error_message_def)
  have 4: "msg_error m = None \<longrightarrow> cdp_outcome m = Resolved (msg_result m)"
    by (simp add: cdp_outcome_def error_message_def)
  have 5: "snd (request g Caller gmethod gparams uuid) = Inr (nextPromise g)
      \<and> sent_ids (effects (gw_run g [(Request gmethod gparams, now, uuid)]))
          = sent_ids (effects g) @ [uuid]
      \<and> map_of (pending (gw_run g ((Request gmethod gparams, now, uuid) # xs))) uuid
          = Some \<lparr>promise = nextPromise g, awaiter = Caller\<rparr>
      \<and> history_of (nextPromise g)
          (settled (effects (gw_run g ((Request gmethod gparams, now, uuid) # xs)))) = []
      \<and> (\<forall>zs. history_of (nextPromise g)
                 (settled (effects (gw_run g ((Request gmethod gparams, now, uuid) # xs
                    @ (Frame (Some (ResMsg r)), now', uuid') # zs))))
               = [(nextPromise g, gw_outcome r)])"
    if "g = gw_run (new_GatewayClient u t pf) ghist \<and> ws g = Some OPEN
      \<and> list_all (gw_keeps uuid) xs \<and> res_id r = uuid"
  proof -
    from that have a: "g = gw_run (new_GatewayClient u t pf) ghist" and b: "ws g = Some OPEN"
      and c: "list_all (gw_keeps uuid) xs" and d: "res_id r = uuid"
      by blast+
    from gw_call_answered [OF a b c d] show ?thesis by blast
  qed
  have 6: "map_of (pending c) (res_id r') = None \<longrightarrow>
        handleMessage c (Some (ResMsg r')) now uuid = c"
    by (simp add: handleMessage_unknown)
  have 7: "ok r \<longrightarrow> gw_outcome r = Resolved (res_payload r)"
    by (simp add: gw_outcome_def)
  have 8: "\<not> ok r \<and> res_error r = Some \<lparr>message = Some msg'\<rparr> \<longrightarrow>
        gw_outcome r = Rejected (ServerError msg')"
    by (simp add: gw_outcome_def res_message_def)
  have 9: "\<not> ok r \<and> res_error r = Some \<lparr>message = None\<rparr> \<longrightarrow>
        gw_outcome r = Rejected (ServerError ''unknown error'')"
    by (simp add: gw_outcome_def res_message_def)
  have 10: "\<not> ok r \<and> res_error r = None \<longrightarrow>
        gw_outcome r = Rejected (ServerError ''unknown error'')"
    by (simp add: gw_outcome_def res_message_def)
  from 1 2 3 4 5 6 7 8 9 10 show ?thesis by blast
qed


lemma cdp_history_state:
  "pending (cdp_run new_CdpBridge cdp_history)
     = [(1, \<lparr>promise = 0, awaiter = Caller\<rparr>), (2, \<lparr>promise = 1, awaiter = Caller\<rparr>)]
   \<and> nextPromise (cdp_run new_CdpBridge cdp_history) = 2
   \<and> settled (effects (cdp_run new_CdpBridge cdp_history)) = []"
  by (simp add: cdp_history_def cdp_eval)

lemma gw_history_state:
  "pending (gw_run gw_fresh gw_history) = [(''r1'', \<lparr>promise = 0, awaiter = Caller\<rparr>)]
   \<and> nextPromise (gw_run gw_fresh gw_history) = 1
   \<and> settled (effects (gw_run gw_fresh gw_history)) = []
   \<and> gw_fresh_uuids gw_fresh gw_history"
  by (simp add: gw_history_def gw_fresh_def gw_eval)

theorem close_rejects_each_pending_call_once_witness:
  "pending (cdp_run (cdp_run new_CdpBridge cdp_history) [Close]) = []
   \<and> (\<forall>ys. history_of 1 (settled (effects (cdp_run (cdp_run new_CdpBridge cdp_history) (Close # ys))))
             = [(1, Rejected CdpClosed)])
   \<and> (\<forall>ys. history_of 0 (settled (effects (cdp_run (cdp_run new_CdpBridge cdp_history) (Close # ys))))
             = [(0, Rejected CdpClosed)])
   \<and> pending (gw_run (gw_run gw_fresh gw_history) [(Closed 1006 ''gone'', 9, ''u9'')]) = []
   \<and> (\<forall>ys. history_of 0
               (settled (effects (gw_run (gw_run gw_fresh gw_history)
                  ((Closed 1006 ''gone'', 9, ''u9'') # ys))))
             = [(0, Rejected (GatewayClosed 1006 ''gone''))])"
proof -
  let ?s = "cdp_run new_CdpBridge cdp_history"
  let ?g = "gw_run (new_GatewayClient None None ''linux'') gw_history"
  note inst = close_rejects_each_pending_call_once
      [where s = ?s and hist = cdp_history and kp = "(2, \<lparr>promise = 1, awaiter = Caller\<rparr>)"
         and p = 0 and g = ?g and u = None and t = None and pf = "''linux''" and ghist = gw_history
         and kq = "(''r1'', \<lparr>promise = 0, awaiter = Caller\<rparr>)" and q = 0
         and code = 1006 and reason = "''gone''" and now = 9 and uuid = "''u9''"]
  have h1: "?s = cdp_run new_CdpBridge cdp_history
      \<and> (2, \<lparr>promise = 1, awaiter = Caller\<rparr>) \<in> set (pending ?s)"
    by (simp add: cdp_history_state)
  have h2: "?s = cdp_run new_CdpBridge cdp_history \<and> 0 < nextPromise ?s
      \<and> history_of 0 (settled (effects ?s)) = []"
    by (simp add: cdp_history_state history_of_def)
  have h3: "?g = gw_run (new_GatewayClient None None ''linux'') gw_history
      \<and> (''r1'', \<lparr>promise = 0, awaiter = Caller\<rparr>) \<in> set (pending ?g)"
    using gw_history_state by (simp add: gw_fresh_def)
  have h4: "?g = gw_run (new_GatewayClient None None ''linux'') gw_history
      \<and> gw_fresh_uuids (new_GatewayClient None None ''linux'') gw_history
      \<and> 0 < nextPromise ?g \<and> history_of 0 (settled (effects ?g)) = []"
    using gw_history_state by (simp add: gw_fresh_def history_of_def)
  from inst h1 h2 h3 h4 show ?thesis unfolding gw_fresh_def by simp
qed

lemma bridge_open_ready:
  "bridge_open = cdp_run new_CdpBridge [Connect_begin ''127.0.0.1'' 19222, Connect_opened]
   \<and> ws bridge_open = Some OPEN \<and> nextId bridge_open = 1 \<and> nextPromise bridge_open = 0"
proof -
  have "bridge_open = cdp_run new_CdpBridge [Connect_begin ''127.0.0.1'' 19222, Connect_opened]"
    by (simp add: bridge_open_def)
  moreover have "ws bridge_open = Some OPEN \<and> nextId bridge_open = 1 \<and> nextPromise bridge_open = 0"
    by (simp add: bridge_open_eq)
  ultimately show ?thesis by blast
qed

lemma gw_open_ready:
  "gw_open_no_handshake
     = gw_run (new_GatewayClient None None ''linux'') [(Start, 0, ''u0''), (Opened, 5, ''u1'')]
   \<and> ws gw_open_no_handshake = Some OPEN \<and> nextPromise gw_open_no_handshake = 0"
proof -
  have "gw_open_no_handshake
     = gw_run (new_GatewayClient None None ''linux'') [(Start, 0, ''u0''), (Opened, 5, ''u1'')]"
    by (simp add: gw_open_no_handshake_def gw_fresh_def)
  moreover have "ws gw_open_no_handshake = Some OPEN \<and> nextPromise gw_open_no_handshake = 0"
    by (simp add: gw_open_no_handshake_eq)
  ultimately show ?thesis by blast
qed

lemma responses_settle_by_correlation_id_witness:
  "map_of (pending (cdp_run bridge_open
        (Send ''Runtime.evaluate'' JNull # other_call_answered_first))) 1
      = Some \<lparr>promise = 0, awaiter = Caller\<rparr>
   \<and> history_of 0 (settled (effects (cdp_run bridge_open
        (Send ''Runtime.evaluate'' JNull # other_call_answered_first)))) = []
   \<and> (\<forall>ys. history_of 0 (settled (effects (cdp_run bridge_open
        (Send ''Runtime.evaluate'' JNull # other_call_answered_first @ Message (Some reply_1) # ys))))
      = [(0, Resolved (JObj [(''value'', JStr ''one'')]))])
   \<and> settled (effects (cdp_run bridge_open
        (Send ''Runtime.evaluate'' JNull # other_call_answered_first @ [Message (Some reply_1)])))
      = [(1, Resolved (JObj [(''value'', JStr ''two'')])),
         (0, Resolved (JObj [(''value'', JStr ''one'')]))]
   \<and> (\<forall>zs. history_of 0 (settled (effects (gw_run gw_open_no_handshake
        ((Request ''send'' JNull, 6, ''r1'') # gw_other_call_answered_first
           @ (Frame (Some (ResMsg gw_denied)), 9, ''r4'') # zs))))
      = [(0, Rejected (ServerError ''denied''))])"
proof -
  note inst = responses_settle_by_correlation_id
      [where s = bridge_open and hist = "[Connect_begin ''127.0.0.1'' 19222, Connect_opened]"
         and evs = other_call_answered_first and m = reply_1
         and meth = "''Runtime.evaluate''" and params = JNull
         and m' = reply_1 and j = 1 and b = new_CdpBridge and msg = "''x''"
         and g = gw_open_no_handshake and u = None and t = None and pf = "''linux''"
         and ghist = "[(Start, 0, ''u0''), (Opened, 5, ''u1'')]"
         and uuid = "''r1''" and xs = gw_other_call_answered_first and r = gw_denied
         and gmethod = "''send''" and gparams = JNull and now = 6 and now' = 9 and uuid' = "''r4''"
         and c = "new_GatewayClient None None ''linux''" and r' = gw_denied and msg' = "''denied''"]
  have h1: "bridge_open = cdp_run new_CdpBridge [Connect_begin ''127.0.0.1'' 19222, Connect_opened]
      \<and> ws bridge_open = Some OPEN
      \<and> list_all (cdp_keeps (nextId bridge_open)) other_call_answered_first
      \<and> msg_id reply_1 = Some (nextId bridge_open)"
    using bridge_open_ready
    by (simp add: other_call_answered_first_def reply_1_def reply_2_def)
  have h2: "gw_open_no_handshake
        = gw_run (new_GatewayClient None None ''linux'') [(Start, 0, ''u0''), (Opened, 5, ''u1'')]
      \<and> ws gw_open_no_handshake = Some OPEN
      \<and> list_all (gw_keeps ''r1'') gw_other_call_answered_first
      \<and> res_id gw_denied = ''r1''"
    using gw_open_ready
    by (simp add: gw_other_call_answered_first_def gw_denied_def gw_other_ok_def)
  have o1: "cdp_outcome reply_1 = Resolved (JObj [(''value'', JStr ''one'')])"
    using inst by (simp add: reply_1_def)
  have o2: "gw_outcome gw_denied = Rejected (ServerError ''denied'')"
    using inst by (simp add: gw_denied_def)
  have e: "settled (effects (cdp_run bridge_open
        (Send ''Runtime.evaluate'' JNull # other_call_answered_first @ [Message (Some reply_1)])))
      = [(1, Resolved (JObj [(''value'', JStr ''two'')])),
         (0, Resolved (JObj [(''value'', JStr ''one'')]))]"
    by (simp add: bridge_open_eq other_call_answered_first_def reply_1_def reply_2_def
        error_message_def cdp_eval)
  from inst h1 h2 o1 o2 e bridge_open_ready gw_open_ready show ?thesis by simp
qed

end
